theory Spec2Isabelle
  imports Main "HOL-Library.Word"
begin

section \<open>The data model of \<open>store/lru/doubly_linked_list.go\<close>\<close>

text \<open>
  Nodes live in a heap that only grows (Go is garbage collected, nothing is freed while
  it can still be reached): the heap is the list of all nodes allocated so far, and the
  address of a node is its position in that list. A \<open>*Node\<close> is an address or \<open>nil\<close>.
\<close>

type_synonym addr = nat
type_synonym ptr = "addr option"

text \<open>The \<open>interface{}\<close> payload: the sentinels hold the string \<open>""\<close>, callers store anything.\<close>

datatype 'v iface = StrVal string | AnyVal 'v

text \<open>
  \<open>type Node struct\<close>. \<open>TTL\<close> and \<open>CreatedAt\<close> are \<open>int64\<close>; \<open>NMux\<close> is the node's own
  \<open>Mux sync.Mutex\<close> (\<open>True\<close> when held), which no function of the file touches.
\<close>

record 'v Node =
  Key :: string
  Value :: "'v iface"
  TTL :: "64 word"
  CreatedAt :: "64 word"
  Prev :: ptr
  Next :: ptr
  NMux :: bool

text \<open>\<open>type List struct\<close>. \<open>Size\<close> is an \<open>int32\<close>; \<open>Mux\<close> is \<open>True\<close> while the mutex is held.\<close>

record List =
  Head :: ptr
  Tail :: ptr
  Size :: "32 word"
  Mux :: bool

text \<open>
  The functions of the file synchronise on \<open>ll.Mux\<close>. To make the order of their lock
  operations and memory accesses observable, every access to a field of the list or to a
  link of a node is logged, in program order, together with the lock operations.
\<close>

datatype loc = ListHead | ListTail | ListSize | NodePrev addr | NodeNext addr

datatype event = Lock | Unlock | Rd loc | Wr loc

text \<open>
  The state: the \<open>List\<close> object that \<open>ll\<close> points to, the node heap, and the log.
\<close>

record 'v state =
  ll :: List
  heap :: "'v Node list"
  trace :: "event list"

text \<open>
  What stops a call without a return value. \<open>NilDereference\<close> is Go's run-time panic.
  \<open>Blocked\<close>: \<open>Lock\<close> on a mutex that is held never returns in a sequential execution.
  \<open>UnlockOfUnlockedMutex\<close> is the fatal error of \<open>sync.Mutex.Unlock\<close>. \<open>InvalidPointer\<close>
  does not exist in Go (an address beyond the heap); it keeps the model from reading a
  list out of range.
\<close>

datatype fault = NilDereference | Blocked | UnlockOfUnlockedMutex | InvalidPointer

text \<open>The Go \<open>error\<close> values of the file are all made by \<open>errors.New\<close>.\<close>

datatype error = errors_New string

type_synonym ('v, 'a) prog = "'v state \<Rightarrow> fault + ('a \<times> 'v state)"

definition ret :: "'a \<Rightarrow> ('v, 'a) prog" where
  "ret x s = Inr (x, s)"

definition seq :: "('v, 'a) prog \<Rightarrow> ('a \<Rightarrow> ('v, 'b) prog) \<Rightarrow> ('v, 'b) prog" where
  "seq m f s = (case m s of Inl e \<Rightarrow> Inl e | Inr (x, s') \<Rightarrow> f x s')"

definition log :: "event \<Rightarrow> 'v state \<Rightarrow> 'v state" where
  "log e s = s\<lparr>trace := trace s @ [e]\<rparr>"

subsection \<open>The primitive steps\<close>

text \<open>\<open>ll.Mux.Lock()\<close> and \<open>ll.Mux.Unlock()\<close>.\<close>

definition Mux_Lock :: "('v, unit) prog" where
  "Mux_Lock s =
     (if Mux (ll s) then Inl Blocked
      else Inr ((), log Lock (s\<lparr>ll := (ll s)\<lparr>Mux := True\<rparr>\<rparr>)))"

definition Mux_Unlock :: "('v, unit) prog" where
  "Mux_Unlock s =
     (if Mux (ll s) then Inr ((), log Unlock (s\<lparr>ll := (ll s)\<lparr>Mux := False\<rparr>\<rparr>))
      else Inl UnlockOfUnlockedMutex)"

text \<open>Reads of \<open>ll.Head\<close>, \<open>ll.Tail\<close>, \<open>ll.Size\<close>, and \<open>atomic.AddInt32(&ll.Size, d)\<close>.\<close>

definition load_Head :: "('v, ptr) prog" where
  "load_Head s = Inr (Head (ll s), log (Rd ListHead) s)"

definition load_Tail :: "('v, ptr) prog" where
  "load_Tail s = Inr (Tail (ll s), log (Rd ListTail) s)"

definition load_Size :: "('v, 32 word) prog" where
  "load_Size s = Inr (Size (ll s), log (Rd ListSize) s)"

definition AddInt32 :: "32 word \<Rightarrow> ('v, unit) prog" where
  "AddInt32 d s = Inr ((), log (Wr ListSize) (s\<lparr>ll := (ll s)\<lparr>Size := Size (ll s) + d\<rparr>\<rparr>))"

text \<open>\<open>&Node{...}\<close>: the new node gets the next free address.\<close>

definition new_Node :: "'v Node \<Rightarrow> ('v, ptr) prog" where
  "new_Node n s = Inr (Some (length (heap s)), s\<lparr>heap := heap s @ [n]\<rparr>)"

text \<open>\<open>p.Prev\<close>, \<open>p.Next\<close>, \<open>p.Prev = v\<close> and \<open>p.Next = v\<close> for a \<open>p *Node\<close>.\<close>

definition load_Prev :: "ptr \<Rightarrow> ('v, ptr) prog" where
  "load_Prev p s =
     (case p of None \<Rightarrow> Inl NilDereference
      | Some a \<Rightarrow> if a < length (heap s) then Inr (Prev (heap s ! a), log (Rd (NodePrev a)) s)
                  else Inl InvalidPointer)"

definition load_Next :: "ptr \<Rightarrow> ('v, ptr) prog" where
  "load_Next p s =
     (case p of None \<Rightarrow> Inl NilDereference
      | Some a \<Rightarrow> if a < length (heap s) then Inr (Next (heap s ! a), log (Rd (NodeNext a)) s)
                  else Inl InvalidPointer)"

definition store_Prev :: "ptr \<Rightarrow> ptr \<Rightarrow> ('v, unit) prog" where
  "store_Prev p v s =
     (case p of None \<Rightarrow> Inl NilDereference
      | Some a \<Rightarrow> if a < length (heap s)
                  then Inr ((), log (Wr (NodePrev a)) (s\<lparr>heap := (heap s)[a := (heap s ! a)\<lparr>Prev := v\<rparr>]\<rparr>))
                  else Inl InvalidPointer)"

definition store_Next :: "ptr \<Rightarrow> ptr \<Rightarrow> ('v, unit) prog" where
  "store_Next p v s =
     (case p of None \<Rightarrow> Inl NilDereference
      | Some a \<Rightarrow> if a < length (heap s)
                  then Inr ((), log (Wr (NodeNext a)) (s\<lparr>heap := (heap s)[a := (heap s ! a)\<lparr>Next := v\<rparr>]\<rparr>))
                  else Inl InvalidPointer)"

subsection \<open>The functions of the file\<close>

text \<open>
  \<open>InitList\<close>. The two calls of \<open>time.Now().Unix()\<close> are the parameters \<open>t1\<close> and \<open>t2\<close>.
  The new \<open>List\<close> becomes the list of the state; its mutex is the zero value, unlocked.
\<close>

definition new_List :: "List \<Rightarrow> ('v, unit) prog" where
  "new_List l s = Inr ((), s\<lparr>ll := l\<rparr>)"

definition InitList :: "64 word \<Rightarrow> 64 word \<Rightarrow> ('v, unit) prog" where
  "InitList t1 t2 =
     seq (new_Node \<lparr>Key = '''', Value = StrVal '''', TTL = - 1, CreatedAt = t1,
                    Prev = None, Next = None, NMux = False\<rparr>) (\<lambda>headNode.
     seq (new_Node \<lparr>Key = '''', Value = StrVal '''', TTL = - 1, CreatedAt = t2,
                    Prev = None, Next = None, NMux = False\<rparr>) (\<lambda>tailNode.
     seq (new_List \<lparr>Head = headNode, Tail = tailNode, Size = 0, Mux = False\<rparr>) (\<lambda>_.
     seq load_Head (\<lambda>h. seq load_Tail (\<lambda>t. seq (store_Next h t) (\<lambda>_.
     seq load_Tail (\<lambda>t. seq load_Head (\<lambda>h. seq (store_Prev t h) (\<lambda>_.
     ret ())))))))))"

text \<open>
  \<open>Insert\<close>. \<open>now\<close> is \<open>time.Now().Unix()\<close>. The deferred \<open>Unlock\<close> runs at the return.
  The result is the pair \<open>(*Node, error)\<close>, \<open>None\<close> for \<open>nil\<close>. A call that panics has no
  result and no state after it: the model gives the fault alone.
\<close>

definition Insert :: "string \<Rightarrow> 'v iface \<Rightarrow> 64 word \<Rightarrow> 64 word \<Rightarrow> ('v, ptr \<times> error option) prog" where
  "Insert key val ttl now =
     seq Mux_Lock (\<lambda>_.
     seq (new_Node \<lparr>Key = key, Value = val, TTL = ttl, CreatedAt = now,
                    Prev = None, Next = None, NMux = False\<rparr>) (\<lambda>newNode.
     seq load_Head (\<lambda>h. seq (store_Prev newNode h) (\<lambda>_.
     seq load_Head (\<lambda>h. seq (load_Next h) (\<lambda>hn. seq (store_Next newNode hn) (\<lambda>_.
     seq load_Head (\<lambda>h. seq (store_Next h newNode) (\<lambda>_.
     seq (load_Next newNode) (\<lambda>n. seq (store_Prev n newNode) (\<lambda>_.
     seq (AddInt32 1) (\<lambda>_.
     seq Mux_Unlock (\<lambda>_.
     ret (newNode, None))))))))))))))"

text \<open>\<open>RemoveLast\<close>.\<close>

definition RemoveLast :: "('v, ptr \<times> error option) prog" where
  "RemoveLast =
     seq Mux_Lock (\<lambda>_.
     seq load_Size (\<lambda>sz.
     if sz = 0 then seq Mux_Unlock (\<lambda>_. ret (None, Some (errors_New ''List is empty'')))
     else
       seq load_Tail (\<lambda>t. seq (load_Prev t) (\<lambda>nodeToRemove.
       seq (load_Prev nodeToRemove) (\<lambda>p. seq load_Tail (\<lambda>t. seq (store_Next p t) (\<lambda>_.
       seq load_Tail (\<lambda>t. seq (load_Prev nodeToRemove) (\<lambda>p. seq (store_Prev t p) (\<lambda>_.
       seq (AddInt32 (- 1)) (\<lambda>_.
       seq Mux_Unlock (\<lambda>_.
       ret (nodeToRemove, None)))))))))))))"

text \<open>
  \<open>RemoveNode\<close>. The size is read once for each comparison; the error of the inner
  \<open>RemoveLast\<close> is dropped (\<open>returnNode, _ := RemoveLast(ll)\<close>).
\<close>

definition RemoveNode :: "ptr \<Rightarrow> ('v, ptr \<times> error option) prog" where
  "RemoveNode node =
     seq Mux_Lock (\<lambda>_.
     seq load_Size (\<lambda>sz.
     if sz = 0 then seq Mux_Unlock (\<lambda>_. ret (None, Some (errors_New ''List is empty'')))
     else
       seq load_Size (\<lambda>sz1.
       if sz1 = 1 then
         seq Mux_Unlock (\<lambda>_.
         seq RemoveLast (\<lambda>r.
         ret (fst r, None)))
       else
         seq Mux_Unlock (\<lambda>_.
         seq Mux_Lock (\<lambda>_.
         seq (load_Prev node) (\<lambda>prevNode.
         seq (load_Next node) (\<lambda>nextNode.
         seq (load_Next node) (\<lambda>n. seq (store_Next prevNode n) (\<lambda>_.
         seq (load_Prev node) (\<lambda>p. seq (store_Prev nextNode p) (\<lambda>_.
         seq (AddInt32 (- 1)) (\<lambda>_.
         seq Mux_Unlock (\<lambda>_.
         ret (node, None))))))))))))))"

text \<open>
  The second half of \<open>RemoveNode\<close>, lines 181 to 192: what the call does after it has
  released the lock at line 179, from the second \<open>Lock\<close> on (\<open>RemoveNode_gap\<close> below).
\<close>

definition RemoveNode_relink :: "ptr \<Rightarrow> ('v, ptr \<times> error option) prog" where
  "RemoveNode_relink node =
     seq Mux_Lock (\<lambda>_.
     seq (load_Prev node) (\<lambda>prevNode.
     seq (load_Next node) (\<lambda>nextNode.
     seq (load_Next node) (\<lambda>n. seq (store_Next prevNode n) (\<lambda>_.
     seq (load_Prev node) (\<lambda>p. seq (store_Prev nextNode p) (\<lambda>_.
     seq (AddInt32 (- 1)) (\<lambda>_.
     seq Mux_Unlock (\<lambda>_.
     ret (node, None))))))))))"

text \<open>\<open>GetLastNode\<close>.\<close>

definition GetLastNode :: "('v, ptr \<times> error option) prog" where
  "GetLastNode =
     seq Mux_Lock (\<lambda>_.
     seq load_Size (\<lambda>sz.
     if sz = 0 then seq Mux_Unlock (\<lambda>_. ret (None, Some (errors_New ''List is empty'')))
     else
       seq Mux_Unlock (\<lambda>_.
       seq load_Tail (\<lambda>t. seq (load_Prev t) (\<lambda>nodeToGet.
       ret (nodeToGet, None))))))"

section \<open>What the claims speak about\<close>

subsection \<open>Chains of links\<close>

text \<open>
  \<open>chain f h p as q\<close>: starting at the pointer \<open>p\<close> and following the link \<open>f\<close> (\<open>Next\<close> or
  \<open>Prev\<close>) in the heap \<open>h\<close>, one visits the nodes \<open>as\<close>, in this order, and arrives at \<open>q\<close>.
\<close>

fun chain :: "('v Node \<Rightarrow> ptr) \<Rightarrow> 'v Node list \<Rightarrow> ptr \<Rightarrow> addr list \<Rightarrow> ptr \<Rightarrow> bool" where
  "chain f h p [] q = (p = q)"
| "chain f h p (a # as) q = (p = Some a \<and> a < length h \<and> chain f h (f (h ! a)) as q)"

text \<open>
  The list of the state is linked, with head sentinel \<open>ha\<close>, real elements \<open>xs\<close> (most
  recently inserted first) and tail sentinel \<open>ta\<close>: \<open>Next\<close> leads from \<open>ll.Head\<close> through
  \<open>ha\<close>, \<open>xs\<close>, \<open>ta\<close> to \<open>nil\<close>, \<open>Prev\<close> leads from \<open>ll.Tail\<close> through the same nodes in
  reverse to \<open>nil\<close>, and no node is visited twice.
\<close>

definition linked :: "'v state \<Rightarrow> addr \<Rightarrow> addr list \<Rightarrow> addr \<Rightarrow> bool" where
  "linked s ha xs ta =
     (chain Next (heap s) (Head (ll s)) (ha # xs @ [ta]) None \<and>
      chain Prev (heap s) (Tail (ll s)) (ta # rev xs @ [ha]) None \<and>
      distinct (ha # xs @ [ta]))"

text \<open>
  The invariant of the data model: the list is linked, nobody holds its lock, \<open>Size\<close>, read
  as the signed number it is, is the number of real elements, and the elements are in
  the order of their allocation, newest first (a node allocated later has a larger
  address).
\<close>

definition list_inv :: "'v state \<Rightarrow> addr \<Rightarrow> addr list \<Rightarrow> addr \<Rightarrow> bool" where
  "list_inv s ha xs ta =
     (linked s ha xs ta \<and> \<not> Mux (ll s) \<and> sint (Size (ll s)) = int (length xs) \<and>
      sorted_wrt (>) xs)"

text \<open>
  The same without the bound: \<open>Size\<close> is the number of real elements modulo \<open>2^32\<close>, which is
  what an \<open>int32\<close> counter holds after any number of calls.
\<close>

definition list_ok :: "'v state \<Rightarrow> addr \<Rightarrow> addr list \<Rightarrow> addr \<Rightarrow> bool" where
  "list_ok s ha xs ta =
     (linked s ha xs ta \<and> \<not> Mux (ll s) \<and> Size (ll s) = of_nat (length xs) \<and>
      sorted_wrt (>) xs)"

text \<open>
  The chain walk as a function: at most \<open>n\<close> steps along \<open>f\<close>, until \<open>nil\<close>. The real
  elements of the list are what the walk from \<open>ll.Head\<close> along \<open>Next\<close> finds between the
  first and the last node.
\<close>

fun walk :: "('v Node \<Rightarrow> ptr) \<Rightarrow> 'v Node list \<Rightarrow> nat \<Rightarrow> ptr \<Rightarrow> addr list" where
  "walk f h 0 p = []"
| "walk f h (Suc n) None = []"
| "walk f h (Suc n) (Some a) = (if a < length h then a # walk f h n (f (h ! a)) else [])"

definition elements :: "'v state \<Rightarrow> addr list" where
  "elements s = butlast (tl (walk Next (heap s) (length (heap s)) (Head (ll s))))"

definition keys_of :: "'v state \<Rightarrow> addr list \<Rightarrow> string list" where
  "keys_of s xs = map (\<lambda>a. Key (heap s ! a)) xs"

text \<open>The heap after a node between \<open>y\<close> and \<open>z\<close> is bypassed, and after \<open>n\<close> is put between them.\<close>

definition unlink :: "'v Node list \<Rightarrow> addr \<Rightarrow> addr \<Rightarrow> 'v Node list" where
  "unlink h y z = h[y := (h ! y)\<lparr>Next := Some z\<rparr>, z := (h ! z)\<lparr>Prev := Some y\<rparr>]"

definition splice :: "'v Node list \<Rightarrow> 'v Node \<Rightarrow> addr \<Rightarrow> addr \<Rightarrow> 'v Node list" where
  "splice h n y z = (h @ [n])[y := (h ! y)\<lparr>Next := Some (length h)\<rparr>,
                               z := (h ! z)\<lparr>Prev := Some (length h)\<rparr>]"

subsection \<open>Sequences of calls\<close>

datatype 'v op = OpInsert string "'v iface" "64 word" "64 word" | OpRemoveLast
  | OpRemoveNode ptr | OpGetLastNode

fun apply_op :: "'v op \<Rightarrow> ('v, ptr \<times> error option) prog" where
  "apply_op (OpInsert k v ttl now) = Insert k v ttl now"
| "apply_op OpRemoveLast = RemoveLast"
| "apply_op (OpRemoveNode p) = RemoveNode p"
| "apply_op OpGetLastNode = GetLastNode"

fun run :: "'v op list \<Rightarrow> 'v state \<Rightarrow> fault + 'v state" where
  "run [] s = Inr s"
| "run (c # cs) s = (case apply_op c s of Inl e \<Rightarrow> Inl e | Inr (r, s') \<Rightarrow> run cs s')"

text \<open>\<open>RemoveNode\<close> is called only on elements that are linked at the time of the call.\<close>

fun allowed :: "'v op \<Rightarrow> 'v state \<Rightarrow> bool" where
  "allowed (OpRemoveNode p) s = (case p of None \<Rightarrow> False | Some a \<Rightarrow> a \<in> set (elements s))"
| "allowed c s = True"

fun only_linked :: "'v op list \<Rightarrow> 'v state \<Rightarrow> bool" where
  "only_linked [] s = True"
| "only_linked (c # cs) s =
     (allowed c s \<and> (case apply_op c s of Inl e \<Rightarrow> True | Inr (r, s') \<Rightarrow> only_linked cs s'))"

text \<open>\<open>Insert\<close> is not called while \<open>Size\<close> is the largest \<open>int32\<close>, 2147483647.\<close>

fun has_room :: "'v op \<Rightarrow> 'v state \<Rightarrow> bool" where
  "has_room (OpInsert k v ttl now) s = (Size (ll s) \<noteq> 2147483647)"
| "has_room c s = True"

fun below_MaxInt32 :: "'v op list \<Rightarrow> 'v state \<Rightarrow> bool" where
  "below_MaxInt32 [] s = True"
| "below_MaxInt32 (c # cs) s =
     (has_room c s \<and> (case apply_op c s of Inl e \<Rightarrow> True | Inr (r, s') \<Rightarrow> below_MaxInt32 cs s'))"

definition insert_ops :: "(string \<times> 'v iface \<times> 64 word \<times> 64 word) list \<Rightarrow> 'v op list" where
  "insert_ops args = map (\<lambda>(k, v, ttl, now). OpInsert k v ttl now) args"

definition size_after :: "'v op list \<Rightarrow> 'v state \<Rightarrow> int option" where
  "size_after cs s = (case run cs s of Inl e \<Rightarrow> None | Inr s' \<Rightarrow> Some (sint (Size (ll s'))))"

text \<open>
  A call after a sequence of calls; and the outcome of a call: its result, with \<open>Size\<close> and
  the real elements of the list after it.
\<close>

definition call_after :: "'v op list \<Rightarrow> ('v, 'a) prog \<Rightarrow> ('v, 'a) prog" where
  "call_after cs f s = (case run cs s of Inl e \<Rightarrow> Inl e | Inr s' \<Rightarrow> f s')"

definition outcome :: "('v, 'a) prog \<Rightarrow> 'v state \<Rightarrow> ('a \<times> 32 word \<times> addr list) option" where
  "outcome f s = (case f s of Inl e \<Rightarrow> None | Inr (r, s') \<Rightarrow> Some (r, Size (ll s'), elements s'))"

subsection \<open>The log of a call\<close>

text \<open>The events a call appends to the log, from the states before and after it.\<close>

definition new_events :: "'v state \<Rightarrow> 'v state \<Rightarrow> event list" where
  "new_events s s' = drop (length (trace s)) (trace s')"

definition events_of :: "('v, 'a) prog \<Rightarrow> 'v state \<Rightarrow> event list" where
  "events_of f s = (case f s of Inl e \<Rightarrow> [] | Inr (r, s') \<Rightarrow> new_events s s')"

text \<open>
  \<open>guarded held es\<close>: every read and write of \<open>es\<close> happens while the lock is held, when
  \<open>held\<close> says whether it is held at the start.
\<close>

fun guarded :: "bool \<Rightarrow> event list \<Rightarrow> bool" where
  "guarded held [] = True"
| "guarded held (Lock # es) = guarded True es"
| "guarded held (Unlock # es) = guarded False es"
| "guarded held (Rd l # es) = (held \<and> guarded held es)"
| "guarded held (Wr l # es) = (held \<and> guarded held es)"

text \<open>
  One critical section for the whole call: the first event takes the lock, the last one
  releases it, and no lock operation lies between them.
\<close>

definition held_throughout :: "event list \<Rightarrow> bool" where
  "held_throughout es =
     (2 \<le> length es \<and> hd es = Lock \<and> last es = Unlock \<and>
      Lock \<notin> set (butlast (tl es)) \<and> Unlock \<notin> set (butlast (tl es)))"

subsection \<open>Example states and inputs\<close>

text \<open>
  The store before any list exists; the list \<open>InitList\<close> makes in it at times 5 and 6; and
  that list after \<open>Insert("a", 1, 60)\<close> at time 7 and \<open>Insert("b", 2, 60)\<close> at time 8 (with
  an empty log).
\<close>

definition empty_store :: "nat state" where
  "empty_store =
     \<lparr>ll = \<lparr>Head = None, Tail = None, Size = 0, Mux = False\<rparr>, heap = [], trace = []\<rparr>"

definition fresh :: "nat state" where
  "fresh =
     \<lparr>ll = \<lparr>Head = Some 0, Tail = Some 1, Size = 0, Mux = False\<rparr>,
      heap = [\<lparr>Key = '''', Value = StrVal '''', TTL = - 1, CreatedAt = 5,
                Prev = None, Next = Some 1, NMux = False\<rparr>,
              \<lparr>Key = '''', Value = StrVal '''', TTL = - 1, CreatedAt = 6,
                Prev = Some 0, Next = None, NMux = False\<rparr>],
      trace = [Rd ListHead, Rd ListTail, Wr (NodeNext 0), Rd ListTail, Rd ListHead,
               Wr (NodePrev 1)]\<rparr>"

definition two_entries :: "nat state" where
  "two_entries =
     \<lparr>ll = \<lparr>Head = Some 0, Tail = Some 1, Size = 2, Mux = False\<rparr>,
      heap = [\<lparr>Key = '''', Value = StrVal '''', TTL = - 1, CreatedAt = 5,
                Prev = None, Next = Some 3, NMux = False\<rparr>,
              \<lparr>Key = '''', Value = StrVal '''', TTL = - 1, CreatedAt = 6,
                Prev = Some 2, Next = None, NMux = False\<rparr>,
              \<lparr>Key = ''a'', Value = AnyVal 1, TTL = 60, CreatedAt = 7,
                Prev = Some 3, Next = Some 1, NMux = False\<rparr>,
              \<lparr>Key = ''b'', Value = AnyVal 2, TTL = 60, CreatedAt = 8,
                Prev = Some 0, Next = Some 2, NMux = False\<rparr>],
      trace = []\<rparr>"

text \<open>The list after \<open>Insert("a", 1, 60)\<close> alone.\<close>

definition one_entry :: "nat state" where
  "one_entry =
     \<lparr>ll = \<lparr>Head = Some 0, Tail = Some 1, Size = 1, Mux = False\<rparr>,
      heap = [\<lparr>Key = '''', Value = StrVal '''', TTL = - 1, CreatedAt = 5,
                Prev = None, Next = Some 2, NMux = False\<rparr>,
              \<lparr>Key = '''', Value = StrVal '''', TTL = - 1, CreatedAt = 6,
                Prev = Some 2, Next = None, NMux = False\<rparr>,
              \<lparr>Key = ''a'', Value = AnyVal 1, TTL = 60, CreatedAt = 7,
                Prev = Some 0, Next = Some 1, NMux = False\<rparr>],
      trace = []\<rparr>"

text \<open>\<open>n\<close> calls of \<open>Insert\<close> with pairwise different keys: \<open>k\<close>, \<open>kk\<close>, \<open>kkk\<close>, ...\<close>

definition numbered :: "nat \<Rightarrow> (string \<times> nat iface \<times> 64 word \<times> 64 word) list" where
  "numbered n = map (\<lambda>i. (replicate (Suc i) (CHR ''k''), AnyVal i, 60, 0)) [0..<n]"

section \<open>Helper lemmas\<close>

subsection \<open>Chains and heap updates\<close>

lemma chain_append: "chain f h p (as @ bs) q = (\<exists>r. chain f h p as r \<and> chain f h r bs q)"
  by (induction as arbitrary: p) auto

lemma chain_bound: "chain f h p as q \<Longrightarrow> a \<in> set as \<Longrightarrow> a < length h"
  by (induction as arbitrary: p) auto

lemma chain_update_notin:
  "chain f h p as q \<Longrightarrow> a \<notin> set as \<Longrightarrow> chain f (h[a := n]) p as q"
  by (induction as arbitrary: p) auto

lemma field_update_same: "f n = f (h ! a) \<Longrightarrow> f (h[a := n] ! b) = f (h ! b)"
  by (cases "a < length h") (auto simp: nth_list_update list_update_beyond)

lemma chain_update_field:
  "chain f h p as q \<Longrightarrow> f n = f (h ! a) \<Longrightarrow> chain f (h[a := n]) p as q"
  by (induction as arbitrary: p) (auto simp: field_update_same)

lemma chain_grow: "chain f h p as q \<Longrightarrow> chain f (h @ ns) p as q"
  by (induction as arbitrary: p) (auto simp: nth_append)

text \<open>From a pointer there is at most one chain to \<open>nil\<close>.\<close>

lemma chain_unique: "chain f h p as None \<Longrightarrow> chain f h p bs None \<Longrightarrow> as = bs"
proof (induction as arbitrary: p bs)
  case Nil
  then show ?case by (cases bs) auto
next
  case (Cons a as)
  then show ?case by (cases bs) auto
qed

lemma unlink_Next:
  assumes c: "chain Next h p (pre @ [y, x, z] @ post) None"
    and d: "distinct (pre @ [y, x, z] @ post)"
  shows "chain Next (h[y := (h ! y)\<lparr>Next := Some z\<rparr>, z := (h ! z)\<lparr>Prev := Some y\<rparr>]) p
           (pre @ [y, z] @ post) None"
proof -
  let ?h = "h[y := (h ! y)\<lparr>Next := Some z\<rparr>, z := (h ! z)\<lparr>Prev := Some y\<rparr>]"
  from c obtain r where c1: "chain Next h p pre r" and c2: "chain Next h r ([y, x, z] @ post) None"
    unfolding chain_append by blast
  from c2 have r: "r = Some y" and y: "y < length h" and z: "z < length h"
    and c3: "chain Next h (Some z) (z # post) None"
    by auto
  have "chain Next ?h p pre r"
    using d by (intro chain_update_field chain_update_notin c1) simp_all
  moreover have "chain Next ?h (Some z) (z # post) None"
    using d by (intro chain_update_field chain_update_notin c3) simp_all
  moreover have "Next (?h ! y) = Some z"
    using y z d by (simp add: nth_list_update)
  ultimately show ?thesis
    using r y z by (simp add: chain_append)
qed

lemma unlink_Prev:
  assumes c: "chain Prev h q (rev (pre @ [y, x, z] @ post)) None"
    and d: "distinct (pre @ [y, x, z] @ post)"
  shows "chain Prev (h[y := (h ! y)\<lparr>Next := Some z\<rparr>, z := (h ! z)\<lparr>Prev := Some y\<rparr>]) q
           (rev (pre @ [y, z] @ post)) None"
proof -
  let ?h = "h[y := (h ! y)\<lparr>Next := Some z\<rparr>, z := (h ! z)\<lparr>Prev := Some y\<rparr>]"
  from c have c': "chain Prev h q (rev post @ [z, x, y] @ rev pre) None" by simp
  then obtain r where c1: "chain Prev h q (rev post) r"
    and c2: "chain Prev h r ([z, x, y] @ rev pre) None"
    unfolding chain_append by blast
  from c2 have r: "r = Some z" and y: "y < length h" and z: "z < length h"
    and c3: "chain Prev h (Some y) (y # rev pre) None"
    by auto
  have "chain Prev ?h q (rev post) r"
    using d by (intro chain_update_notin chain_update_field c1) simp_all
  moreover have "chain Prev ?h (Some y) (y # rev pre) None"
    using d by (intro chain_update_notin chain_update_field c3) simp_all
  moreover have "Prev (?h ! z) = Some y"
    using y z d by (simp add: nth_list_update)
  ultimately show ?thesis
    using r y z by (simp add: chain_append)
qed

lemma splice_Next:
  assumes c: "chain Next h p (y # z # post) None"
    and d: "distinct (y # z # post)"
    and n: "Prev n = Some y" "Next n = Some z"
  shows "chain Next ((h @ [n])[y := (h ! y)\<lparr>Next := Some (length h)\<rparr>,
                               z := (h ! z)\<lparr>Prev := Some (length h)\<rparr>]) p
           (y # length h # z # post) None"
proof -
  let ?h = "(h @ [n])[y := (h ! y)\<lparr>Next := Some (length h)\<rparr>, z := (h ! z)\<lparr>Prev := Some (length h)\<rparr>]"
  from c have p: "p = Some y" and y: "y < length h" and z: "z < length h"
    and c3: "chain Next h (Some z) (z # post) None"
    by auto
  have "chain Next ?h (Some z) (z # post) None"
    using d z by (intro chain_update_field chain_update_notin chain_grow c3) (simp_all add: nth_append)
  moreover have "Next (?h ! y) = Some (length h)" "Next (?h ! length h) = Some z"
    using y z d n by (simp_all add: nth_list_update nth_append)
  ultimately show ?thesis
    using p y z by simp
qed

lemma splice_Prev:
  assumes c: "chain Prev h q (rev (y # z # post)) None"
    and d: "distinct (y # z # post)"
    and n: "Prev n = Some y" "Next n = Some z"
  shows "chain Prev ((h @ [n])[y := (h ! y)\<lparr>Next := Some (length h)\<rparr>,
                               z := (h ! z)\<lparr>Prev := Some (length h)\<rparr>]) q
           (rev (y # length h # z # post)) None"
proof -
  let ?h = "(h @ [n])[y := (h ! y)\<lparr>Next := Some (length h)\<rparr>, z := (h ! z)\<lparr>Prev := Some (length h)\<rparr>]"
  from c have "chain Prev h q (rev post @ [z, y]) None" by simp
  then obtain r where c1: "chain Prev h q (rev post) r" and c2: "chain Prev h r [z, y] None"
    unfolding chain_append by blast
  from c2 have r: "r = Some z" and y: "y < length h" and z: "z < length h"
    and e: "Prev (h ! y) = None"
    by auto
  have "chain Prev ?h q (rev post) r"
    using d by (intro chain_update_notin chain_grow c1) simp_all
  moreover have "Prev (?h ! z) = Some (length h)" "Prev (?h ! length h) = Some y"
    "Prev (?h ! y) = None"
    using y z d n e by (simp_all add: nth_list_update nth_append)
  ultimately show ?thesis
    using r y z by (simp add: chain_append)
qed

subsection \<open>The \<open>int32\<close> size\<close>

lemma Size_bound: "sint (w :: 32 word) = int n \<Longrightarrow> n < 2 ^ 31"
  using sint_lt [of w] by simp

lemma Size_incr:
  "sint (w :: 32 word) = int n \<Longrightarrow> Suc n < 2 ^ 31 \<Longrightarrow> sint (w + 1) = int (Suc n)"
  by (simp add: sint_word_add signed_take_bit_int_eq_self)

lemma Size_decr:
  "sint (w :: 32 word) = int n \<Longrightarrow> 0 < n \<Longrightarrow> sint (w - 1) = int (n - 1)"
  using sint_lt [of w]
  by (simp add: sint_word_diff signed_take_bit_int_eq_self of_nat_diff)

lemma Size_zero: "sint (w :: 32 word) = int n \<Longrightarrow> (w = 0) = (n = 0)"
  using signed_eq_0_iff [where ?'a = int, of w] by simp

lemma Size_max: "sint (w :: 32 word) = int n \<Longrightarrow> (w = 2147483647) = (n = 2147483647)"
  using word_eq_iff_signed [where ?'a = int, of w 2147483647] by simp

lemma Size_one: "sint (w :: 32 word) = int n \<Longrightarrow> (w = 1) = (n = 1)"
  using word_eq_iff_signed [where ?'a = int, of w 1] by simp

subsection \<open>What one call does\<close>

lemmas prims = seq_def ret_def log_def Mux_Lock_def Mux_Unlock_def load_Head_def load_Tail_def
  load_Size_def AddInt32_def new_Node_def load_Prev_def load_Next_def store_Prev_def store_Next_def
  new_List_def

lemma Insert_effect:
  assumes "Head (ll s) = Some y" "y < length (heap s)" "Next (heap s ! y) = Some z"
    "z < length (heap s)" "\<not> Mux (ll s)" "y \<noteq> z"
  shows "Insert k v ttl now s =
    Inr ((Some (length (heap s)), None),
         s\<lparr>heap := (heap s @ [\<lparr>Key = k, Value = v, TTL = ttl, CreatedAt = now,
                                 Prev = Some y, Next = Some z, NMux = False\<rparr>])
                        [y := (heap s ! y)\<lparr>Next := Some (length (heap s))\<rparr>,
                         z := (heap s ! z)\<lparr>Prev := Some (length (heap s))\<rparr>],
           ll := (ll s)\<lparr>Size := Size (ll s) + 1, Mux := False\<rparr>,
           trace := trace s @
             [Lock, Rd ListHead, Wr (NodePrev (length (heap s))), Rd ListHead, Rd (NodeNext y),
              Wr (NodeNext (length (heap s))), Rd ListHead, Wr (NodeNext y),
              Rd (NodeNext (length (heap s))), Wr (NodePrev z), Wr ListSize, Unlock]\<rparr>)"
  using assms by (simp add: Insert_def prims nth_append)

lemma RemoveLast_effect:
  assumes "Tail (ll s) = Some z" "z < length (heap s)" "Prev (heap s ! z) = Some x"
    "x < length (heap s)" "Prev (heap s ! x) = Some y" "y < length (heap s)" "\<not> Mux (ll s)"
    "x \<noteq> z" "y \<noteq> x" "y \<noteq> z" "Size (ll s) \<noteq> 0"
  shows "RemoveLast s =
    Inr ((Some x, None),
         s\<lparr>heap := (heap s)[y := (heap s ! y)\<lparr>Next := Some z\<rparr>,
                                z := (heap s ! z)\<lparr>Prev := Some y\<rparr>],
           ll := (ll s)\<lparr>Size := Size (ll s) - 1, Mux := False\<rparr>,
           trace := trace s @
             [Lock, Rd ListSize, Rd ListTail, Rd (NodePrev z), Rd (NodePrev x), Rd ListTail,
              Wr (NodeNext y), Rd ListTail, Rd (NodePrev x), Wr (NodePrev z), Wr ListSize,
              Unlock]\<rparr>)"
  using assms by (simp add: RemoveLast_def prims)

lemma RemoveNode_effect:
  assumes "x < length (heap s)" "Prev (heap s ! x) = Some y" "y < length (heap s)"
    "Next (heap s ! x) = Some z" "z < length (heap s)" "\<not> Mux (ll s)"
    "x \<noteq> z" "y \<noteq> x" "y \<noteq> z" "Size (ll s) \<noteq> 0" "Size (ll s) \<noteq> 1"
  shows "RemoveNode (Some x) s =
    Inr ((Some x, None),
         s\<lparr>heap := (heap s)[y := (heap s ! y)\<lparr>Next := Some z\<rparr>,
                                z := (heap s ! z)\<lparr>Prev := Some y\<rparr>],
           ll := (ll s)\<lparr>Size := Size (ll s) - 1, Mux := False\<rparr>,
           trace := trace s @
             [Lock, Rd ListSize, Rd ListSize, Unlock, Lock, Rd (NodePrev x), Rd (NodeNext x),
              Rd (NodeNext x), Wr (NodeNext y), Rd (NodePrev x), Wr (NodePrev z), Wr ListSize,
              Unlock]\<rparr>)"
  using assms by (simp add: RemoveNode_def prims)

lemma Mux_False_same: "\<not> Mux l \<Longrightarrow> l\<lparr>Mux := False\<rparr> = l"
  by (cases l) simp

lemma RemoveNode_single:
  assumes "\<not> Mux (ll s)" "Size (ll s) = 1"
  shows "RemoveNode p s =
    seq RemoveLast (\<lambda>r. ret (fst r, None))
      (s\<lparr>trace := trace s @ [Lock, Rd ListSize, Rd ListSize, Unlock]\<rparr>)"
  using assms by (simp add: RemoveNode_def prims Mux_False_same)

lemma GetLastNode_effect:
  assumes "Tail (ll s) = Some z" "z < length (heap s)" "\<not> Mux (ll s)" "Size (ll s) \<noteq> 0"
  shows "GetLastNode s =
    Inr ((Prev (heap s ! z), None),
         s\<lparr>trace := trace s @ [Lock, Rd ListSize, Unlock, Rd ListTail, Rd (NodePrev z)]\<rparr>)"
  using assms by (simp add: GetLastNode_def prims)

lemma empty_effect:
  assumes "\<not> Mux (ll s)" "Size (ll s) = 0"
  shows "RemoveLast s = Inr ((None, Some (errors_New ''List is empty'')),
           s\<lparr>trace := trace s @ [Lock, Rd ListSize, Unlock]\<rparr>)"
    and "RemoveNode p s = Inr ((None, Some (errors_New ''List is empty'')),
           s\<lparr>trace := trace s @ [Lock, Rd ListSize, Unlock]\<rparr>)"
    and "GetLastNode s = Inr ((None, Some (errors_New ''List is empty'')),
           s\<lparr>trace := trace s @ [Lock, Rd ListSize, Unlock]\<rparr>)"
  using assms by (simp_all add: RemoveLast_def RemoveNode_def GetLastNode_def prims)

lemma InitList_effect:
  "InitList t1 t2 s =
    Inr ((), s\<lparr>heap := heap s @
                 [\<lparr>Key = [], Value = StrVal [], TTL = - 1, CreatedAt = t1,
                     Prev = None, Next = Some (Suc (length (heap s))), NMux = False\<rparr>,
                  \<lparr>Key = [], Value = StrVal [], TTL = - 1, CreatedAt = t2,
                     Prev = Some (length (heap s)), Next = None, NMux = False\<rparr>],
               ll := \<lparr>Head = Some (length (heap s)), Tail = Some (Suc (length (heap s))),
                       Size = 0, Mux = False\<rparr>,
               trace := trace s @
                 [Rd ListHead, Rd ListTail, Wr (NodeNext (length (heap s))), Rd ListTail,
                  Rd ListHead, Wr (NodePrev (Suc (length (heap s))))]\<rparr>)"
  by (simp add: InitList_def prims nth_append list_update_append)

subsection \<open>Linked lists\<close>

lemma chain_step:
  "chain f h p (pre @ a # b # post) q \<Longrightarrow> a < length h \<and> b < length h \<and> f (h ! a) = Some b"
  by (auto simp: chain_append)

lemma linked_Head: "linked s ha xs ta \<Longrightarrow> Head (ll s) = Some ha \<and> ha < length (heap s)"
  by (simp add: linked_def)

lemma linked_Tail: "linked s ha xs ta \<Longrightarrow> Tail (ll s) = Some ta \<and> ta < length (heap s)"
  by (simp add: linked_def)

lemma linked_bound: "linked s ha xs ta \<Longrightarrow> a \<in> set xs \<Longrightarrow> a < length (heap s)"
  unfolding linked_def using chain_bound [of Next "heap s" "Head (ll s)" "ha # xs @ [ta]" None a]
  by simp

text \<open>The neighbours of a node of the chain, read from the heap.\<close>

lemma linked_neighbours:
  assumes l: "linked s ha xs ta" and c: "ha # xs @ [ta] = pre @ [y, x, z] @ post"
  shows "x < length (heap s)" "y < length (heap s)" "z < length (heap s)"
    "Prev (heap s ! x) = Some y" "Next (heap s ! x) = Some z"
    "Next (heap s ! y) = Some x" "Prev (heap s ! z) = Some x"
    "x \<noteq> y" "x \<noteq> z" "y \<noteq> z"
proof -
  from l have n: "chain Next (heap s) (Head (ll s)) (pre @ [y, x, z] @ post) None"
    and d: "distinct (pre @ [y, x, z] @ post)"
    unfolding linked_def c by simp_all
  from l have "chain Prev (heap s) (Tail (ll s)) (rev (ha # xs @ [ta])) None"
    unfolding linked_def by simp
  then have p: "chain Prev (heap s) (Tail (ll s)) (rev post @ [z, x, y] @ rev pre) None"
    unfolding c by simp
  from n have "chain Next (heap s) (Head (ll s)) (pre @ y # x # (z # post)) None" by simp
  from chain_step [OF this]
  show "y < length (heap s)" "x < length (heap s)" "Next (heap s ! y) = Some x" by simp_all
  from n have "chain Next (heap s) (Head (ll s)) ((pre @ [y]) @ x # z # post) None" by simp
  from chain_step [OF this]
  show "z < length (heap s)" "Next (heap s ! x) = Some z" by simp_all
  from p have "chain Prev (heap s) (Tail (ll s)) (rev post @ z # x # (y # rev pre)) None" by simp
  from chain_step [OF this] show "Prev (heap s ! z) = Some x" by simp
  from p have "chain Prev (heap s) (Tail (ll s)) ((rev post @ [z]) @ x # y # rev pre) None"
    by simp
  from chain_step [OF this] show "Prev (heap s ! x) = Some y" by simp
  from d show "x \<noteq> y" "x \<noteq> z" "y \<noteq> z" by auto
qed

lemma linked_unlink:
  assumes l: "linked s ha xs ta" and c: "ha # xs @ [ta] = pre @ [y, x, z] @ post"
    and c': "ha # xs' @ [ta] = pre @ [y, z] @ post"
    and h: "heap s' = unlink (heap s) y z" "Head (ll s') = Head (ll s)" "Tail (ll s') = Tail (ll s)"
  shows "linked s' ha xs' ta"
proof -
  from l have n: "chain Next (heap s) (Head (ll s)) (pre @ [y, x, z] @ post) None"
    and d: "distinct (pre @ [y, x, z] @ post)"
    unfolding linked_def c by simp_all
  from l have "chain Prev (heap s) (Tail (ll s)) (rev (ha # xs @ [ta])) None"
    unfolding linked_def by simp
  then have p: "chain Prev (heap s) (Tail (ll s)) (rev (pre @ [y, x, z] @ post)) None"
    unfolding c by simp
  have "chain Next (heap s') (Head (ll s')) (ha # xs' @ [ta]) None"
    unfolding c' h unlink_def by (rule unlink_Next [OF n d])
  moreover have "chain Prev (heap s') (Tail (ll s')) (rev (ha # xs' @ [ta])) None"
    unfolding c' h unlink_def by (rule unlink_Prev [OF p d])
  moreover have "distinct (ha # xs' @ [ta])"
    unfolding c' using d by auto
  ultimately show ?thesis
    by (simp add: linked_def)
qed

lemma linked_splice:
  assumes l: "linked s ha xs ta" and c: "xs @ [ta] = z # post"
    and n: "Prev n = Some ha" "Next n = Some z"
    and h: "heap s' = splice (heap s) n ha z" "Head (ll s') = Head (ll s)" "Tail (ll s') = Tail (ll s)"
  shows "linked s' ha (length (heap s) # xs) ta"
proof -
  from l have nx: "chain Next (heap s) (Head (ll s)) (ha # z # post) None"
    and d: "distinct (ha # z # post)"
    unfolding linked_def c by simp_all
  from l have "chain Prev (heap s) (Tail (ll s)) (rev (ha # xs @ [ta])) None"
    unfolding linked_def by simp
  then have p: "chain Prev (heap s) (Tail (ll s)) (rev (ha # z # post)) None"
    unfolding append_Cons [symmetric] c by simp
  have b: "\<forall>a\<in>set (ha # z # post). a < length (heap s)"
    using chain_bound [OF nx] by blast
  have e: "ha # (length (heap s) # xs) @ [ta] = ha # length (heap s) # z # post"
    using c by simp
  have "chain Next (heap s') (Head (ll s')) (ha # (length (heap s) # xs) @ [ta]) None"
    unfolding e h splice_def by (rule splice_Next [OF nx d n])
  moreover have "chain Prev (heap s') (Tail (ll s')) (rev (ha # (length (heap s) # xs) @ [ta])) None"
    unfolding e h splice_def by (rule splice_Prev [OF p d n])
  moreover have "distinct (ha # (length (heap s) # xs) @ [ta])"
    unfolding e using d b by auto
  ultimately show ?thesis
    by (simp add: linked_def)
qed

lemma walk_chain: "chain f h p cs None \<Longrightarrow> length cs \<le> n \<Longrightarrow> walk f h n p = cs"
proof (induction cs arbitrary: p n)
  case Nil
  then show ?case by (cases n) simp_all
next
  case (Cons a cs)
  then obtain m where "n = Suc m" by (cases n) auto
  with Cons show ?case by simp
qed

lemma distinct_below: "distinct cs \<Longrightarrow> \<forall>a\<in>set cs. a < n \<Longrightarrow> length cs \<le> n"
proof -
  assume d: "distinct cs" and b: "\<forall>a\<in>set cs. a < n"
  then have "set cs \<subseteq> {..<n}" by auto
  then have "card (set cs) \<le> card {..<n}" by (intro card_mono) simp_all
  with d show ?thesis by (simp add: distinct_card)
qed

lemma linked_elements: "linked s ha xs ta \<Longrightarrow> elements s = xs"
proof -
  assume l: "linked s ha xs ta"
  then have c: "chain Next (heap s) (Head (ll s)) (ha # xs @ [ta]) None"
    and d: "distinct (ha # xs @ [ta])"
    by (simp_all add: linked_def)
  have "\<forall>a\<in>set (ha # xs @ [ta]). a < length (heap s)"
    using chain_bound [OF c] by blast
  with d have "length (ha # xs @ [ta]) \<le> length (heap s)"
    by (rule distinct_below)
  with c have "walk Next (heap s) (length (heap s)) (Head (ll s)) = ha # xs @ [ta]"
    by (rule walk_chain)
  then show ?thesis by (simp add: elements_def)
qed

lemma length_unlink [simp]: "length (unlink h y z) = length h"
  by (simp add: unlink_def)

lemma length_splice [simp]: "length (splice h n y z) = Suc (length h)"
  by (simp add: splice_def)

lemma nth_unlink_other: "a \<noteq> y \<Longrightarrow> a \<noteq> z \<Longrightarrow> unlink h y z ! a = h ! a"
  by (simp add: unlink_def)

lemma Key_unlink [simp]: "Key (unlink h y z ! a) = Key (h ! a)"
  unfolding unlink_def by (simp add: field_update_same)

lemma Key_splice_old: "a < length h \<Longrightarrow> Key (splice h n y z ! a) = Key (h ! a)"
  unfolding splice_def
  by (cases "y < length h"; cases "z < length h")
     (auto simp: nth_list_update nth_append list_update_append)

lemma nth_splice_new:
  "y < length h \<Longrightarrow> z < length h \<Longrightarrow> splice h n y z ! length h = n"
  by (simp add: splice_def)

lemma unlink_links:
  "y < length h \<Longrightarrow> z < length h \<Longrightarrow> y \<noteq> z \<Longrightarrow>
   Next (unlink h y z ! y) = Some z \<and> Prev (unlink h y z ! z) = Some y"
  by (simp add: unlink_def)

lemma Insert_linked:
  assumes l: "linked s ha xs ta" and m: "\<not> Mux (ll s)"
  shows "Insert k v ttl now s =
    Inr ((Some (length (heap s)), None),
         s\<lparr>heap := splice (heap s)
                    \<lparr>Key = k, Value = v, TTL = ttl, CreatedAt = now, Prev = Some ha,
                       Next = Some (hd (xs @ [ta])), NMux = False\<rparr> ha (hd (xs @ [ta])),
           ll := (ll s)\<lparr>Size := Size (ll s) + 1, Mux := False\<rparr>,
           trace := trace s @
             [Lock, Rd ListHead, Wr (NodePrev (length (heap s))), Rd ListHead, Rd (NodeNext ha),
              Wr (NodeNext (length (heap s))), Rd ListHead, Wr (NodeNext ha),
              Rd (NodeNext (length (heap s))), Wr (NodePrev (hd (xs @ [ta]))), Wr ListSize,
              Unlock]\<rparr>)"
proof -
  obtain z post where c: "xs @ [ta] = z # post" by (cases "xs @ [ta]") auto
  from l have "chain Next (heap s) (Head (ll s)) (ha # z # post) None" "distinct (ha # z # post)"
    unfolding linked_def c by simp_all
  then have "Head (ll s) = Some ha" "ha < length (heap s)" "Next (heap s ! ha) = Some z"
    "z < length (heap s)" "ha \<noteq> z"
    by auto
  from Insert_effect [OF this(1-4) m this(5)] show ?thesis
    by (simp add: c splice_def)
qed

lemma Insert_keeps_linked:
  assumes l: "linked s ha xs ta"
    and h: "heap s' = splice (heap s)
                    \<lparr>Key = k, Value = v, TTL = ttl, CreatedAt = now, Prev = Some ha,
                       Next = Some (hd (xs @ [ta])), NMux = False\<rparr> ha (hd (xs @ [ta]))"
      "Head (ll s') = Head (ll s)" "Tail (ll s') = Tail (ll s)"
  shows "linked s' ha (length (heap s) # xs) ta"
proof -
  obtain z post where c: "xs @ [ta] = z # post" by (cases "xs @ [ta]") auto
  show ?thesis
    by (rule linked_splice [OF l c _ _ h [unfolded c list.sel]]) simp_all
qed

lemma RemoveNode_linked:
  assumes l: "linked s ha xs ta" and m: "\<not> Mux (ll s)"
    and c: "ha # xs @ [ta] = pre @ [y, x, z] @ post"
    and sz: "Size (ll s) \<noteq> 0" "Size (ll s) \<noteq> 1"
  shows "RemoveNode (Some x) s =
    Inr ((Some x, None),
         s\<lparr>heap := unlink (heap s) y z,
           ll := (ll s)\<lparr>Size := Size (ll s) - 1, Mux := False\<rparr>,
           trace := trace s @
             [Lock, Rd ListSize, Rd ListSize, Unlock, Lock, Rd (NodePrev x), Rd (NodeNext x),
              Rd (NodeNext x), Wr (NodeNext y), Rd (NodePrev x), Wr (NodePrev z), Wr ListSize,
              Unlock]\<rparr>)"
  using RemoveNode_effect [of x s y z] linked_neighbours [OF l c] m sz
  by (simp add: unlink_def)

lemma RemoveLast_linked:
  assumes l: "linked s ha xs ta" and m: "\<not> Mux (ll s)"
    and c: "ha # xs @ [ta] = pre @ [y, x, ta]"
    and sz: "Size (ll s) \<noteq> 0"
  shows "RemoveLast s =
    Inr ((Some x, None),
         s\<lparr>heap := unlink (heap s) y ta,
           ll := (ll s)\<lparr>Size := Size (ll s) - 1, Mux := False\<rparr>,
           trace := trace s @
             [Lock, Rd ListSize, Rd ListTail, Rd (NodePrev ta), Rd (NodePrev x), Rd ListTail,
              Wr (NodeNext y), Rd ListTail, Rd (NodePrev x), Wr (NodePrev ta), Wr ListSize,
              Unlock]\<rparr>)"
proof -
  from c have c': "ha # xs @ [ta] = pre @ [y, x, ta] @ []" by simp
  show ?thesis
    using RemoveLast_effect [of s ta x y] linked_neighbours [OF l c'] linked_Tail [OF l] m sz
    by (simp add: unlink_def)
qed

lemma GetLastNode_linked:
  assumes l: "linked s ha xs ta" and m: "\<not> Mux (ll s)" and sz: "Size (ll s) \<noteq> 0"
  shows "GetLastNode s =
    Inr ((Some (last (ha # xs)), None),
         s\<lparr>trace := trace s @ [Lock, Rd ListSize, Unlock, Rd ListTail, Rd (NodePrev ta)]\<rparr>)"
proof -
  from l have "chain Prev (heap s) (Tail (ll s)) (ta # rev xs @ [ha]) None"
    by (simp add: linked_def)
  then have "Prev (heap s ! ta) = Some (last (ha # xs))"
    by (cases xs rule: rev_cases) auto
  with GetLastNode_effect [of s ta] linked_Tail [OF l] m sz show ?thesis
    by simp
qed

text \<open>Splitting the chain at an element.\<close>

lemma split_at_last:
  "xs \<noteq> [] \<Longrightarrow> \<exists>pre y. ha # xs @ [ta] = pre @ [y, last xs, ta] \<and>
      ha # butlast xs @ [ta] = pre @ [y, ta]"
proof -
  assume "xs \<noteq> []"
  then obtain us l where x: "xs = us @ [l]" by (cases xs rule: rev_cases) auto
  obtain pre y where p: "ha # us = pre @ [y]"
    by (cases "ha # us" rule: rev_cases) auto
  have "ha # xs @ [ta] = (ha # us) @ [last xs, ta]" by (simp add: x)
  then have "ha # xs @ [ta] = pre @ [y, last xs, ta]" unfolding p by simp
  moreover have "ha # butlast xs @ [ta] = (ha # us) @ [ta]" by (simp add: x)
  then have "ha # butlast xs @ [ta] = pre @ [y, ta]" unfolding p by simp
  ultimately show ?thesis by blast
qed

lemma split_at:
  assumes "x \<in> set xs" "distinct xs"
  shows "\<exists>pre y z post. ha # xs @ [ta] = pre @ [y, x, z] @ post \<and>
      ha # remove1 x xs @ [ta] = pre @ [y, z] @ post"
proof -
  from assms(1) obtain us vs where x: "xs = us @ x # vs" by (auto dest: split_list)
  with assms(2) have r: "remove1 x xs = us @ vs" by (simp add: remove1_append)
  obtain pre y where p: "ha # us = pre @ [y]"
    by (cases "ha # us" rule: rev_cases) auto
  obtain z post where q: "vs @ [ta] = z # post" by (cases "vs @ [ta]") auto
  have "ha # xs @ [ta] = (ha # us) @ x # (vs @ [ta])" by (simp add: x)
  then have "ha # xs @ [ta] = pre @ [y, x, z] @ post" unfolding p q by simp
  moreover have "ha # remove1 x xs @ [ta] = (ha # us) @ (vs @ [ta])" by (simp add: r)
  then have "ha # remove1 x xs @ [ta] = pre @ [y, z] @ post" unfolding p q by simp
  ultimately show ?thesis by blast
qed

subsection \<open>The invariant is kept\<close>

lemma list_inv_trace [simp]: "list_inv (s\<lparr>trace := t\<rparr>) ha xs ta = list_inv s ha xs ta"
  by (simp add: list_inv_def linked_def)

lemma linked_trace [simp]: "linked (s\<lparr>trace := t\<rparr>) ha xs ta = linked s ha xs ta"
  by (simp add: linked_def)

lemma sorted_wrt_remove1: "distinct xs \<Longrightarrow> sorted_wrt P xs \<Longrightarrow> sorted_wrt P (remove1 x xs)"
  by (simp add: distinct_remove1_removeAll removeAll_filter_not_eq sorted_wrt_filter)

lemma sorted_wrt_butlast: "sorted_wrt P xs \<Longrightarrow> sorted_wrt P (butlast xs)"
  by (cases xs rule: rev_cases) (simp_all add: sorted_wrt_append)

lemma Insert_inv:
  assumes i: "list_inv s ha xs ta" and r: "Size (ll s) \<noteq> 2147483647"
  shows "\<exists>s'. Insert k v ttl now s = Inr ((Some (length (heap s)), None), s') \<and>
           list_inv s' ha (length (heap s) # xs) ta \<and>
           keys_of s' (length (heap s) # xs) = k # keys_of s xs"
proof -
  from i have l: "linked s ha xs ta" and m: "\<not> Mux (ll s)"
    and sz: "sint (Size (ll s)) = int (length xs)" and o: "sorted_wrt (>) xs"
    by (simp_all add: list_inv_def)
  let ?n = "\<lparr>Key = k, Value = v, TTL = ttl, CreatedAt = now, Prev = Some ha,
              Next = Some (hd (xs @ [ta])), NMux = False\<rparr>"
  let ?s = "s\<lparr>heap := splice (heap s) ?n ha (hd (xs @ [ta])),
           ll := (ll s)\<lparr>Size := Size (ll s) + 1, Mux := False\<rparr>,
           trace := trace s @
             [Lock, Rd ListHead, Wr (NodePrev (length (heap s))), Rd ListHead, Rd (NodeNext ha),
              Wr (NodeNext (length (heap s))), Rd ListHead, Wr (NodeNext ha),
              Rd (NodeNext (length (heap s))), Wr (NodePrev (hd (xs @ [ta]))), Wr ListSize,
              Unlock]\<rparr>"
  have b: "\<forall>a\<in>set xs. a < length (heap s)"
    using linked_bound [OF l] by blast
  have z: "hd (xs @ [ta]) < length (heap s)"
    using b linked_Tail [OF l] by (cases xs) simp_all
  have "Insert k v ttl now s = Inr ((Some (length (heap s)), None), ?s)"
    by (rule Insert_linked [OF l m])
  moreover have "linked ?s ha (length (heap s) # xs) ta"
    by (rule Insert_keeps_linked [OF l]) simp_all
  moreover have "Suc (length xs) < 2 ^ 31"
    using Size_bound [OF sz] Size_max [OF sz] r by simp
  then have "sint (Size (ll ?s)) = int (length (length (heap s) # xs))"
    using Size_incr [OF sz] by simp
  moreover have "sorted_wrt (>) (length (heap s) # xs)"
    using o b by auto
  moreover have "keys_of ?s (length (heap s) # xs) = k # keys_of s xs"
    using b z linked_Head [OF l] by (simp add: keys_of_def Key_splice_old nth_splice_new)
  ultimately show ?thesis
    by (simp add: list_inv_def)
qed

lemma unlink_inv:
  assumes i: "list_inv s ha xs ta"
    and c: "ha # xs @ [ta] = pre @ [y, x, z] @ post" "ha # xs' @ [ta] = pre @ [y, z] @ post"
    and o: "sorted_wrt (>) xs'" and n: "length xs' = length xs - 1" and x: "xs \<noteq> []"
  shows "list_inv (s\<lparr>heap := unlink (heap s) y z,
           ll := (ll s)\<lparr>Size := Size (ll s) - 1, Mux := False\<rparr>, trace := t\<rparr>) ha xs' ta"
proof -
  from i have l: "linked s ha xs ta" and sz: "sint (Size (ll s)) = int (length xs)"
    by (simp_all add: list_inv_def)
  let ?s = "s\<lparr>heap := unlink (heap s) y z,
           ll := (ll s)\<lparr>Size := Size (ll s) - 1, Mux := False\<rparr>, trace := t\<rparr>"
  have "linked ?s ha xs' ta"
    by (rule linked_unlink [OF l c]) simp_all
  moreover have "sint (Size (ll ?s)) = int (length xs')"
    using Size_decr [OF sz] x n by simp
  ultimately show ?thesis
    using o by (simp add: list_inv_def)
qed

lemma RemoveLast_inv:
  assumes i: "list_inv s ha xs ta" and x: "xs \<noteq> []"
  shows "\<exists>s'. RemoveLast s = Inr ((Some (last xs), None), s') \<and> list_inv s' ha (butlast xs) ta"
proof -
  from i have l: "linked s ha xs ta" and m: "\<not> Mux (ll s)"
    and sz: "sint (Size (ll s)) = int (length xs)" and o: "sorted_wrt (>) xs"
    by (simp_all add: list_inv_def)
  from split_at_last [OF x] obtain pre y
    where c: "ha # xs @ [ta] = pre @ [y, last xs, ta]"
      and c': "ha # butlast xs @ [ta] = pre @ [y, ta]" by blast
  have nz: "Size (ll s) \<noteq> 0" using Size_zero [OF sz] x by simp
  from c c' have d: "ha # xs @ [ta] = pre @ [y, last xs, ta] @ []"
    "ha # butlast xs @ [ta] = pre @ [y, ta] @ []" by simp_all
  show ?thesis
    unfolding RemoveLast_linked [OF l m c nz]
    using unlink_inv [OF i d sorted_wrt_butlast [OF o] _ x] by simp
qed

lemma RemoveNode_inv:
  assumes i: "list_inv s ha xs ta" and x: "x \<in> set xs"
  shows "\<exists>s'. RemoveNode (Some x) s = Inr ((Some x, None), s') \<and>
           list_inv s' ha (remove1 x xs) ta"
proof -
  from i have l: "linked s ha xs ta" and m: "\<not> Mux (ll s)"
    and sz: "sint (Size (ll s)) = int (length xs)" and o: "sorted_wrt (>) xs"
    by (simp_all add: list_inv_def)
  from l have d: "distinct xs" by (simp add: linked_def)
  from x have ne: "xs \<noteq> []" by auto
  have nz: "Size (ll s) \<noteq> 0" using Size_zero [OF sz] ne by simp
  show ?thesis
  proof (cases "length xs = 1")
    case True
    with x have xs: "xs = [x]" by (cases xs) auto
    let ?s = "s\<lparr>trace := trace s @ [Lock, Rd ListSize, Rd ListSize, Unlock]\<rparr>"
    have one: "Size (ll s) = 1" using Size_one [OF sz] True by simp
    have "list_inv ?s ha xs ta" using i by simp
    from RemoveLast_inv [OF this ne] obtain s'
      where "RemoveLast ?s = Inr ((Some (last xs), None), s')" "list_inv s' ha (butlast xs) ta"
      by blast
    then show ?thesis
      unfolding RemoveNode_single [OF m one] by (simp add: xs seq_def ret_def)
  next
    case False
    then have no: "Size (ll s) \<noteq> 1" using Size_one [OF sz] by simp
    from split_at [OF x d] obtain pre y z post
      where c: "ha # xs @ [ta] = pre @ [y, x, z] @ post"
        and c': "ha # remove1 x xs @ [ta] = pre @ [y, z] @ post" by blast
    show ?thesis
      unfolding RemoveNode_linked [OF l m c nz no]
      using unlink_inv [OF i c c' sorted_wrt_remove1 [OF d o] _ ne] x
      by (simp add: length_remove1)
  qed
qed

lemma GetLastNode_inv:
  assumes i: "list_inv s ha xs ta" and x: "xs \<noteq> []"
  shows "GetLastNode s = Inr ((Some (last xs), None),
           s\<lparr>trace := trace s @ [Lock, Rd ListSize, Unlock, Rd ListTail, Rd (NodePrev ta)]\<rparr>)"
proof -
  from i have l: "linked s ha xs ta" and m: "\<not> Mux (ll s)"
    and sz: "sint (Size (ll s)) = int (length xs)"
    by (simp_all add: list_inv_def)
  have nz: "Size (ll s) \<noteq> 0" using Size_zero [OF sz] x by simp
  show ?thesis
    using GetLastNode_linked [OF l m nz] x by simp
qed

lemma step_inv:
  assumes i: "list_inv s ha xs ta" and a: "allowed c s" and r: "has_room c s"
  shows "\<exists>res s' xs'. apply_op c s = Inr (res, s') \<and> list_inv s' ha xs' ta"
proof (cases c)
  case (OpInsert k v ttl now)
  with Insert_inv [OF i, of k v ttl now] r show ?thesis by auto
next
  case OpRemoveLast
  show ?thesis
  proof (cases "xs = []")
    case True
    with i have "\<not> Mux (ll s)" "Size (ll s) = 0"
      using Size_zero [of "Size (ll s)" "length xs"] by (simp_all add: list_inv_def)
    from empty_effect(1) [OF this] i show ?thesis
      unfolding OpRemoveLast by auto
  next
    case False
    from RemoveLast_inv [OF i False] show ?thesis unfolding OpRemoveLast by auto
  qed
next
  case (OpRemoveNode p)
  from i have "elements s = xs" by (auto simp: list_inv_def dest: linked_elements)
  with a OpRemoveNode obtain x where "p = Some x" "x \<in> set xs"
    by (cases p) auto
  with RemoveNode_inv [OF i this(2)] show ?thesis unfolding OpRemoveNode by auto
next
  case OpGetLastNode
  show ?thesis
  proof (cases "xs = []")
    case True
    with i have "\<not> Mux (ll s)" "Size (ll s) = 0"
      using Size_zero [of "Size (ll s)" "length xs"] by (simp_all add: list_inv_def)
    from empty_effect(3) [OF this] i show ?thesis
      unfolding OpGetLastNode by auto
  next
    case False
    from GetLastNode_inv [OF i False] i show ?thesis
      unfolding OpGetLastNode by auto
  qed
qed

lemma run_inv:
  "list_inv s ha xs ta \<Longrightarrow> only_linked cs s \<Longrightarrow> below_MaxInt32 cs s \<Longrightarrow>
   \<exists>s' xs'. run cs s = Inr s' \<and> list_inv s' ha xs' ta"
proof (induction cs arbitrary: s xs)
  case Nil
  then show ?case by auto
next
  case (Cons c cs)
  from Cons.prems have a: "allowed c s" and r: "has_room c s" by simp_all
  from step_inv [OF Cons.prems(1) a r] obtain res s1 xs1
    where e: "apply_op c s = Inr (res, s1)" and i: "list_inv s1 ha xs1 ta" by blast
  from Cons.prems e have "only_linked cs s1" "below_MaxInt32 cs s1" by simp_all
  from Cons.IH [OF i this] e show ?case by simp
qed

lemma InitList_inv:
  "\<exists>s'. InitList t1 t2 s = Inr ((), s') \<and>
     list_inv s' (length (heap s)) [] (Suc (length (heap s)))"
  unfolding InitList_effect
  by (simp add: list_inv_def linked_def nth_append)

subsection \<open>The example states\<close>

lemma oldest_last: "sorted_wrt (>) xs \<Longrightarrow> x \<in> set xs \<Longrightarrow> last xs \<le> (x::nat)"
  by (cases xs rule: rev_cases) (auto simp: sorted_wrt_append less_imp_le)

lemma fresh_inv: "list_inv fresh 0 [] 1"
  by (simp add: fresh_def list_inv_def linked_def)

lemma two_entries_inv: "list_inv two_entries 0 [3, 2] 1"
  by (simp add: two_entries_def list_inv_def linked_def)

lemma InitList_fresh: "InitList 5 6 empty_store = Inr ((), fresh)"
  by (simp add: InitList_effect empty_store_def fresh_def)

subsection \<open>What a call that returns has done\<close>

lemma Insert_returns:
  "Insert k v ttl now s = Inr (r, s') \<Longrightarrow>
   snd r = None \<and> \<not> Mux (ll s') \<and>
   (\<exists>y z. new_events s s' =
     [Lock, Rd ListHead, Wr (NodePrev (length (heap s))), Rd ListHead, Rd (NodeNext y),
      Wr (NodeNext (length (heap s))), Rd ListHead, Wr (NodeNext y),
      Rd (NodeNext (length (heap s))), Wr (NodePrev z), Wr ListSize, Unlock])"
  by (auto simp: Insert_def prims new_events_def nth_append split: if_splits option.splits)

lemma RemoveLast_returns:
  "RemoveLast s = Inr (r, s') \<Longrightarrow>
   \<not> Mux (ll s') \<and>
   (Size (ll s) = 0 \<and> r = (None, Some (errors_New ''List is empty'')) \<and>
      new_events s s' = [Lock, Rd ListSize, Unlock] \<or>
    Size (ll s) \<noteq> 0 \<and> snd r = None \<and>
      (\<exists>x y z. new_events s s' =
         [Lock, Rd ListSize, Rd ListTail, Rd (NodePrev z), Rd (NodePrev x), Rd ListTail,
          Wr (NodeNext y), Rd ListTail, Rd (NodePrev x), Wr (NodePrev z), Wr ListSize,
          Unlock]))"
  by (auto simp: RemoveLast_def prims new_events_def split: if_splits option.splits)

lemma GetLastNode_returns:
  "GetLastNode s = Inr (r, s') \<Longrightarrow>
   \<not> Mux (ll s') \<and>
   (Size (ll s) = 0 \<and> r = (None, Some (errors_New ''List is empty'')) \<and>
      new_events s s' = [Lock, Rd ListSize, Unlock] \<or>
    Size (ll s) \<noteq> 0 \<and> snd r = None \<and>
      (\<exists>z. new_events s s' = [Lock, Rd ListSize, Unlock, Rd ListTail, Rd (NodePrev z)]))"
  by (auto simp: GetLastNode_def prims new_events_def split: if_splits option.splits)

lemma RemoveNode_returns:
  "RemoveNode p s = Inr (r, s') \<Longrightarrow>
   \<not> Mux (ll s') \<and>
   (Size (ll s) = 0 \<and> r = (None, Some (errors_New ''List is empty'')) \<and>
      new_events s s' = [Lock, Rd ListSize, Unlock] \<or>
    Size (ll s) = 1 \<and> snd r = None \<and>
      (\<exists>x y z. new_events s s' =
         [Lock, Rd ListSize, Rd ListSize, Unlock,
          Lock, Rd ListSize, Rd ListTail, Rd (NodePrev z), Rd (NodePrev x), Rd ListTail,
          Wr (NodeNext y), Rd ListTail, Rd (NodePrev x), Wr (NodePrev z), Wr ListSize,
          Unlock]) \<or>
    Size (ll s) \<noteq> 0 \<and> Size (ll s) \<noteq> 1 \<and> snd r = None \<and>
      (\<exists>x y z. new_events s s' =
         [Lock, Rd ListSize, Rd ListSize, Unlock, Lock, Rd (NodePrev x), Rd (NodeNext x),
          Rd (NodeNext x), Wr (NodeNext y), Rd (NodePrev x), Wr (NodePrev z), Wr ListSize,
          Unlock]))"
  by (auto simp: RemoveNode_def RemoveLast_def prims new_events_def split: if_splits option.splits)


text \<open>
  Addresses are given out in the order of the insertions: \<open>Insert\<close> returns the node at the
  next free address, and no other function allocates.
\<close>

lemma Insert_allocates:
  "Insert k v ttl now s = Inr (r, s') \<Longrightarrow>
   fst r = Some (length (heap s)) \<and> length (heap s') = Suc (length (heap s))"
  by (auto simp: Insert_def prims nth_append split: if_splits option.splits)

lemma removals_allocate_nothing:
  "RemoveLast s = Inr (r, s') \<or> RemoveNode p s = Inr (r, s') \<or> GetLastNode s = Inr (r, s') \<Longrightarrow>
   length (heap s') = length (heap s)"
  by (auto simp: RemoveNode_def RemoveLast_def GetLastNode_def prims split: if_splits option.splits)

lemma list_inv_elements: "list_inv s ha xs ta \<Longrightarrow> elements s = xs"
  unfolding list_inv_def by (blast dest: linked_elements)

lemma RemoveLast_state:
  assumes i: "list_inv s ha xs ta" and c: "ha # xs @ [ta] = pre @ [y, x, ta]"
  shows "\<exists>t. RemoveLast s =
    Inr ((Some x, None),
         s\<lparr>heap := unlink (heap s) y ta,
           ll := (ll s)\<lparr>Size := Size (ll s) - 1, Mux := False\<rparr>, trace := t\<rparr>)"
proof -
  from i have l: "linked s ha xs ta" and m: "\<not> Mux (ll s)"
    and sz: "sint (Size (ll s)) = int (length xs)"
    by (simp_all add: list_inv_def)
  from c have "xs \<noteq> []" by (cases xs) auto
  then have nz: "Size (ll s) \<noteq> 0" using Size_zero [OF sz] by simp
  show ?thesis
    unfolding RemoveLast_linked [OF l m c nz] by blast
qed

lemma RemoveNode_state:
  assumes i: "list_inv s ha xs ta" and c: "ha # xs @ [ta] = pre @ [y, x, z] @ post"
  shows "\<exists>t. RemoveNode (Some x) s =
    Inr ((Some x, None),
         s\<lparr>heap := unlink (heap s) y z,
           ll := (ll s)\<lparr>Size := Size (ll s) - 1, Mux := False\<rparr>, trace := t\<rparr>)"
proof -
  from i have l: "linked s ha xs ta" and m: "\<not> Mux (ll s)"
    and sz: "sint (Size (ll s)) = int (length xs)"
    by (simp_all add: list_inv_def)
  from c have ne: "xs \<noteq> []" by (cases xs) auto
  then have nz: "Size (ll s) \<noteq> 0" using Size_zero [OF sz] by simp
  show ?thesis
  proof (cases "length xs = 1")
    case True
    then obtain x' where xs: "xs = [x']" by (cases xs) auto
    from c have "length (ha # xs @ [ta]) = length (pre @ [y, x, z] @ post)" by simp
    then have "pre = []" "post = []" by (simp_all add: xs)
    with c have e: "y = ha" "x' = x" "z = ta" by (simp_all add: xs)
    let ?s = "s\<lparr>trace := trace s @ [Lock, Rd ListSize, Rd ListSize, Unlock]\<rparr>"
    have one: "Size (ll s) = 1" using Size_one [OF sz] True by simp
    have i': "list_inv ?s ha xs ta" using i by simp
    have c': "ha # xs @ [ta] = [] @ [y, x, ta]" by (simp add: xs e)
    from RemoveLast_state [OF i' c'] show ?thesis
      unfolding RemoveNode_single [OF m one] by (auto simp: seq_def ret_def e)
  next
    case False
    then have no: "Size (ll s) \<noteq> 1" using Size_one [OF sz] by simp
    show ?thesis
      unfolding RemoveNode_linked [OF l m c nz no] by blast
  qed
qed

subsection \<open>Runs of \<open>Insert\<close>, and the shape of the logs\<close>

lemma held_throughout_simps:
  "held_throughout [Lock, Rd a, Unlock]"
  "held_throughout [Lock, Rd a1, Wr a2, Rd a3, Rd a4, Wr a5, Rd a6, Wr a7, Rd a8, Wr a9, Wr a10,
     Unlock]"
  "held_throughout [Lock, Rd b1, Rd b2, Rd b3, Rd b4, Rd b5, Wr b6, Rd b7, Rd b8, Wr b9, Wr b10,
     Unlock]"
  by (simp_all add: held_throughout_def)

lemma insert_ops_Cons:
  "insert_ops ((k, v, ttl, now) # args) = OpInsert k v ttl now # insert_ops args"
  by (simp add: insert_ops_def)

lemma run_insert_ops_Cons:
  "run (insert_ops ((k, v, ttl, now) # args)) s =
     (case Insert k v ttl now s of Inl e \<Rightarrow> Inl e | Inr (r, s') \<Rightarrow> run (insert_ops args) s')"
  by (simp add: insert_ops_Cons)

lemma inserts_inv:
  "list_inv s ha xs ta \<Longrightarrow> length xs + length args < 2 ^ 31 \<Longrightarrow>
   \<exists>s' ys. run (insert_ops args) s = Inr s' \<and> list_inv s' ha (ys @ xs) ta \<and>
     length ys = length args \<and> keys_of s' (ys @ xs) = rev (map fst args) @ keys_of s xs"
proof (induction args arbitrary: s xs)
  case Nil
  then show ?case by (simp add: insert_ops_def)
next
  case (Cons a args)
  obtain k v ttl now where a: "a = (k, v, ttl, now)" by (cases a) auto
  from Cons.prems have sz: "sint (Size (ll s)) = int (length xs)"
    by (simp add: list_inv_def)
  from Cons.prems(2) have "length xs \<noteq> 2147483647" by simp
  then have "Size (ll s) \<noteq> 2147483647" using Size_max [OF sz] by simp
  from Insert_inv [OF Cons.prems(1) this, of k v ttl now] obtain s1
    where r: "Insert k v ttl now s = Inr ((Some (length (heap s)), None), s1)"
      and i: "list_inv s1 ha (length (heap s) # xs) ta"
      and ks: "keys_of s1 (length (heap s) # xs) = k # keys_of s xs" by blast
  from Cons.prems(2) have "length (length (heap s) # xs) + length args < 2 ^ 31" by simp
  from Cons.IH [OF i this] obtain s' ys
    where r': "run (insert_ops args) s1 = Inr s'"
      and i': "list_inv s' ha (ys @ length (heap s) # xs) ta"
      and n: "length ys = length args"
      and ks': "keys_of s' (ys @ length (heap s) # xs) =
                rev (map fst args) @ keys_of s1 (length (heap s) # xs)" by blast
  have "run (insert_ops (a # args)) s = Inr s'"
    unfolding a run_insert_ops_Cons r using r' by simp
  moreover have "list_inv s' ha ((ys @ [length (heap s)]) @ xs) ta"
    using i' by simp
  moreover have "length (ys @ [length (heap s)]) = length (a # args)"
    using n by simp
  moreover have "keys_of s' ((ys @ [length (heap s)]) @ xs) =
      rev (map fst (a # args)) @ keys_of s xs"
    using ks' ks by (simp add: a)
  ultimately show ?case by blast
qed

lemma inserts_size:
  "linked s ha xs ta \<Longrightarrow> \<not> Mux (ll s) \<Longrightarrow>
   \<exists>s' ys. run (insert_ops args) s = Inr s' \<and> linked s' ha (ys @ xs) ta \<and> \<not> Mux (ll s') \<and>
     length ys = length args \<and> Size (ll s') = Size (ll s) + of_nat (length args)"
proof (induction args arbitrary: s xs)
  case Nil
  then show ?case by (simp add: insert_ops_def)
next
  case (Cons a args)
  obtain k v ttl now where a: "a = (k, v, ttl, now)" by (cases a) auto
  let ?n = "\<lparr>Key = k, Value = v, TTL = ttl, CreatedAt = now, Prev = Some ha,
              Next = Some (hd (xs @ [ta])), NMux = False\<rparr>"
  let ?s = "s\<lparr>heap := splice (heap s) ?n ha (hd (xs @ [ta])),
           ll := (ll s)\<lparr>Size := Size (ll s) + 1, Mux := False\<rparr>,
           trace := trace s @
             [Lock, Rd ListHead, Wr (NodePrev (length (heap s))), Rd ListHead, Rd (NodeNext ha),
              Wr (NodeNext (length (heap s))), Rd ListHead, Wr (NodeNext ha),
              Rd (NodeNext (length (heap s))), Wr (NodePrev (hd (xs @ [ta]))), Wr ListSize,
              Unlock]\<rparr>"
  have r: "Insert k v ttl now s = Inr ((Some (length (heap s)), None), ?s)"
    by (rule Insert_linked [OF Cons.prems])
  have l: "linked ?s ha (length (heap s) # xs) ta"
    by (rule Insert_keeps_linked [OF Cons.prems(1)]) simp_all
  have m: "\<not> Mux (ll ?s)" by simp
  from Cons.IH [OF l m] obtain s' ys
    where r': "run (insert_ops args) ?s = Inr s'"
      and l': "linked s' ha (ys @ length (heap s) # xs) ta" and m': "\<not> Mux (ll s')"
      and n: "length ys = length args"
      and z: "Size (ll s') = Size (ll ?s) + of_nat (length args)" by blast
  have "run (insert_ops (a # args)) s = Inr s'"
    unfolding a run_insert_ops_Cons r using r' by simp
  moreover have "linked s' ha ((ys @ [length (heap s)]) @ xs) ta"
    using l' by simp
  moreover have "length (ys @ [length (heap s)]) = length (a # args)"
    using n by simp
  moreover have "Size (ll s') = Size (ll s) + of_nat (length (a # args))"
    using z by simp
  ultimately show ?case using m' by blast
qed

lemma only_linked_inserts: "only_linked (insert_ops args) s"
proof (induction args arbitrary: s)
  case Nil
  then show ?case by (simp add: insert_ops_def)
next
  case (Cons a args)
  obtain k v ttl now where a: "a = (k, v, ttl, now)" by (cases a) auto
  have "insert_ops (a # args) = OpInsert k v ttl now # insert_ops args"
    by (simp add: insert_ops_Cons a)
  with Cons show ?case by (simp split: sum.split)
qed

lemma size_after_inserts:
  "size_after (insert_ops args) fresh = Some (sint (of_nat (length args) :: 32 word))"
proof -
  have "linked fresh 0 [] 1" "\<not> Mux (ll fresh)"
    using fresh_inv by (simp_all add: list_inv_def)
  from inserts_size [OF this, of args] obtain s'
    where "run (insert_ops args) fresh = Inr s'"
      "Size (ll s') = Size (ll fresh) + of_nat (length args)" by blast
  then show ?thesis by (simp add: size_after_def fresh_def)
qed

lemma distinct_numbered: "distinct (map fst (numbered n))"
proof -
  have "inj_on (\<lambda>i. replicate (Suc i) (CHR ''k'')) (set [0..<n])"
    by (rule inj_onI) (metis length_replicate nat.inject)
  then have "distinct (map (\<lambda>i. replicate (Suc i) (CHR ''k'')) [0..<n])"
    by (simp add: distinct_map)
  then show ?thesis by (simp add: numbered_def comp_def)
qed

subsection \<open>Lists of any size\<close>

text \<open>
  \<open>Size\<close> is an \<open>int32\<close>: it is the number of real elements only modulo \<open>2^32\<close>. The lemmas
  of this section are about \<open>list_ok\<close>, which every sequence of calls keeps (\<open>run_ok\<close>), and
  about the lists that \<open>2^32\<close> and more calls of \<open>Insert\<close> build.
\<close>

lemma Size_of_nat_zero: "n < 2 ^ 32 \<Longrightarrow> ((of_nat n :: 32 word) = 0) = (n = 0)"
  using of_nat_neq_0 [of n, where ?'a = 32] by (cases "n = 0") simp_all

lemma Size_of_nat_one: "n < 2 ^ 32 \<Longrightarrow> ((of_nat n :: 32 word) = 1) = (n = 1)"
proof
  assume b: "n < 2 ^ 32" and e: "(of_nat n :: 32 word) = 1"
  have "unat (of_nat n :: 32 word) = n" using b by (simp add: unat_of_nat)
  with e show "n = 1" by simp
next
  assume "n = 1"
  then show "(of_nat n :: 32 word) = 1" by simp
qed

lemma Size_of_nat_pred: "0 < n \<Longrightarrow> (of_nat (n - 1) :: 32 word) = of_nat n - 1"
  by (cases n) simp_all

lemma Size_sint_pred:
  "(w :: 32 word) \<noteq> - 2147483648 \<Longrightarrow> sint (w - 1) = sint w - 1"
proof -
  assume "w \<noteq> - 2147483648"
  then have "sint w \<noteq> - 2147483648"
    using word_eq_iff_signed [where ?'a = int, of w "- 2147483648"] by simp
  moreover have "- 2147483648 \<le> sint w" "sint w < 2147483648"
    using sint_ge [of w] sint_lt [of w] by simp_all
  ultimately show ?thesis
    by (simp add: sint_word_diff signed_take_bit_int_eq_self)
qed

lemma Size_of_sint: "sint (w :: 32 word) = int n \<Longrightarrow> w = of_nat n"
proof -
  assume "sint w = int n"
  then have "word_of_int (sint w) = (word_of_int (int n) :: 32 word)" by simp
  then show ?thesis by simp
qed

lemma list_inv_ok: "list_inv s ha xs ta \<Longrightarrow> list_ok s ha xs ta"
  by (simp add: list_inv_def list_ok_def Size_of_sint)

lemma list_ok_trace [simp]: "list_ok (s\<lparr>trace := t\<rparr>) ha xs ta = list_ok s ha xs ta"
  by (simp add: list_ok_def)

lemma list_ok_elements: "list_ok s ha xs ta \<Longrightarrow> elements s = xs"
  unfolding list_ok_def by (blast dest: linked_elements)

lemma unlink_ok:
  assumes i: "list_ok s ha xs ta"
    and c: "ha # xs @ [ta] = pre @ [y, x, z] @ post" "ha # xs' @ [ta] = pre @ [y, z] @ post"
    and o: "sorted_wrt (>) xs'" and n: "length xs' = length xs - 1" and x: "xs \<noteq> []"
  shows "list_ok (s\<lparr>heap := unlink (heap s) y z,
           ll := (ll s)\<lparr>Size := Size (ll s) - 1, Mux := False\<rparr>, trace := t\<rparr>) ha xs' ta"
proof -
  from i have l: "linked s ha xs ta" and sz: "Size (ll s) = of_nat (length xs)"
    by (simp_all add: list_ok_def)
  let ?s = "s\<lparr>heap := unlink (heap s) y z,
           ll := (ll s)\<lparr>Size := Size (ll s) - 1, Mux := False\<rparr>, trace := t\<rparr>"
  have "linked ?s ha xs' ta"
    by (rule linked_unlink [OF l c]) simp_all
  moreover have "Size (ll ?s) = of_nat (length xs')"
    using Size_of_nat_pred [of "length xs"] x sz n by simp
  ultimately show ?thesis
    using o by (simp add: list_ok_def)
qed

lemma RemoveNode_ok_state:
  assumes i: "list_ok s ha xs ta" and c: "ha # xs @ [ta] = pre @ [y, x, z] @ post"
    and b: "length xs < 2 ^ 32"
  shows "\<exists>t. RemoveNode (Some x) s =
    Inr ((Some x, None),
         s\<lparr>heap := unlink (heap s) y z,
           ll := (ll s)\<lparr>Size := Size (ll s) - 1, Mux := False\<rparr>, trace := t\<rparr>)"
proof -
  from i have l: "linked s ha xs ta" and m: "\<not> Mux (ll s)"
    and sz: "Size (ll s) = of_nat (length xs)"
    by (simp_all add: list_ok_def)
  from c have ne: "xs \<noteq> []" by (cases xs) auto
  then have nz: "Size (ll s) \<noteq> 0" using Size_of_nat_zero [OF b] sz by simp
  show ?thesis
  proof (cases "length xs = 1")
    case True
    then obtain x' where xs: "xs = [x']" by (cases xs) auto
    from c have "length (ha # xs @ [ta]) = length (pre @ [y, x, z] @ post)" by simp
    then have "pre = []" "post = []" by (simp_all add: xs)
    with c have e: "y = ha" "x' = x" "z = ta" by (simp_all add: xs)
    let ?s = "s\<lparr>trace := trace s @ [Lock, Rd ListSize, Rd ListSize, Unlock]\<rparr>"
    have one: "Size (ll s) = 1" using sz True by simp
    have l': "linked ?s ha xs ta" using l by simp
    have c': "ha # xs @ [ta] = [] @ [y, x, ta]" by (simp add: xs e)
    have "\<not> Mux (ll ?s)" "Size (ll ?s) \<noteq> 0" using m nz by simp_all
    from RemoveLast_linked [OF l' this(1) c' this(2)] show ?thesis
      unfolding RemoveNode_single [OF m one] by (auto simp: seq_def ret_def e)
  next
    case False
    then have no: "Size (ll s) \<noteq> 1" using Size_of_nat_one [OF b] sz by simp
    show ?thesis
      unfolding RemoveNode_linked [OF l m c nz no] by blast
  qed
qed

lemma upt_add_Suc: "[n..<n + Suc k] = n # [Suc n..<Suc n + k]"
  using upt_conv_Cons [of n "n + Suc k"] by (simp del: upt_Suc)

lemma inserts_addresses:
  "linked s ha xs ta \<Longrightarrow> \<not> Mux (ll s) \<Longrightarrow>
   \<exists>s'. run (insert_ops args) s = Inr s' \<and>
     linked s' ha (rev [length (heap s)..<length (heap s) + length args] @ xs) ta \<and>
     \<not> Mux (ll s') \<and> Size (ll s') = Size (ll s) + of_nat (length args)"
proof (induction args arbitrary: s xs)
  case Nil
  then show ?case by (simp add: insert_ops_def)
next
  case (Cons a args)
  obtain k v ttl now where a: "a = (k, v, ttl, now)" by (cases a) auto
  let ?n = "\<lparr>Key = k, Value = v, TTL = ttl, CreatedAt = now, Prev = Some ha,
              Next = Some (hd (xs @ [ta])), NMux = False\<rparr>"
  let ?s = "s\<lparr>heap := splice (heap s) ?n ha (hd (xs @ [ta])),
           ll := (ll s)\<lparr>Size := Size (ll s) + 1, Mux := False\<rparr>,
           trace := trace s @
             [Lock, Rd ListHead, Wr (NodePrev (length (heap s))), Rd ListHead, Rd (NodeNext ha),
              Wr (NodeNext (length (heap s))), Rd ListHead, Wr (NodeNext ha),
              Rd (NodeNext (length (heap s))), Wr (NodePrev (hd (xs @ [ta]))), Wr ListSize,
              Unlock]\<rparr>"
  have r: "Insert k v ttl now s = Inr ((Some (length (heap s)), None), ?s)"
    by (rule Insert_linked [OF Cons.prems])
  have l: "linked ?s ha (length (heap s) # xs) ta"
    by (rule Insert_keeps_linked [OF Cons.prems(1)]) simp_all
  have m: "\<not> Mux (ll ?s)" by simp
  from Cons.IH [OF l m] obtain s'
    where r': "run (insert_ops args) ?s = Inr s'"
      and l': "linked s' ha (rev [length (heap ?s)..<length (heap ?s) + length args] @
                 length (heap s) # xs) ta"
      and m': "\<not> Mux (ll s')"
      and z: "Size (ll s') = Size (ll ?s) + of_nat (length args)" by blast
  have u: "[length (heap s)..<length (heap s) + length (a # args)] =
      length (heap s) # [length (heap ?s)..<length (heap ?s) + length args]"
    using upt_add_Suc [of "length (heap s)" "length args"] by (simp del: upt_Suc)
  have "run (insert_ops (a # args)) s = Inr s'"
    unfolding a run_insert_ops_Cons r using r' by simp
  moreover have "linked s' ha (rev [length (heap s)..<length (heap s) + length (a # args)] @ xs) ta"
    unfolding u using l' by simp
  moreover have "Size (ll s') = Size (ll s) + of_nat (length (a # args))"
    using z by simp
  ultimately show ?case using m' by blast
qed

lemma inserts_from_fresh:
  "\<exists>s'. run (insert_ops args) fresh = Inr s' \<and>
     linked s' 0 (rev [2..<2 + length args]) 1 \<and> \<not> Mux (ll s') \<and>
     Size (ll s') = of_nat (length args)"
proof -
  have a: "linked fresh 0 [] 1" "\<not> Mux (ll fresh)"
    using fresh_inv by (simp_all add: list_inv_def)
  have h: "length (heap fresh) = 2" "Size (ll fresh) = 0"
    by (simp_all add: fresh_def)
  from inserts_addresses [OF a, of args] show ?thesis
    unfolding h append_Nil2 add_0 .
qed

lemma wrapped_to_zero:
  assumes "of_nat (length args) = (0 :: 32 word)"
  shows "outcome (call_after (insert_ops args) RemoveLast) fresh =
           Some ((None, Some (errors_New ''List is empty'')), 0, rev [2..<2 + length args])"
    and "outcome (call_after (insert_ops args) (RemoveNode p)) fresh =
           Some ((None, Some (errors_New ''List is empty'')), 0, rev [2..<2 + length args])"
    and "outcome (call_after (insert_ops args) GetLastNode) fresh =
           Some ((None, Some (errors_New ''List is empty'')), 0, rev [2..<2 + length args])"
proof -
  define xs where "xs = rev [2..<2 + length args]"
  from inserts_from_fresh [of args] obtain s'
    where r: "run (insert_ops args) fresh = Inr s'"
      and l: "linked s' 0 xs 1" and m: "\<not> Mux (ll s')"
      and z: "Size (ll s') = of_nat (length args)" unfolding xs_def by blast
  from z assms have z0: "Size (ll s') = 0" by simp
  have e: "elements (s'\<lparr>trace := t\<rparr>) = xs" for t
    by (rule linked_elements [of _ 0 _ 1]) (use l in simp)
  show "outcome (call_after (insert_ops args) RemoveLast) fresh =
           Some ((None, Some (errors_New ''List is empty'')), 0, rev [2..<2 + length args])"
    unfolding xs_def [symmetric]
    by (simp add: outcome_def call_after_def r empty_effect(1) [OF m z0] e z0)
  show "outcome (call_after (insert_ops args) (RemoveNode p)) fresh =
           Some ((None, Some (errors_New ''List is empty'')), 0, rev [2..<2 + length args])"
    unfolding xs_def [symmetric]
    by (simp add: outcome_def call_after_def r empty_effect(2) [OF m z0] e z0)
  show "outcome (call_after (insert_ops args) GetLastNode) fresh =
           Some ((None, Some (errors_New ''List is empty'')), 0, rev [2..<2 + length args])"
    unfolding xs_def [symmetric]
    by (simp add: outcome_def call_after_def r empty_effect(3) [OF m z0] e z0)
qed

lemma wrapped_to_one:
  assumes w: "of_nat (length args) = (1 :: 32 word)" and ne: "args \<noteq> []"
  shows "outcome (call_after (insert_ops args) (RemoveNode p)) fresh =
           Some ((Some 2, None), 0, rev [3..<2 + length args])"
proof -
  define ys where "ys = rev [3..<2 + length args]"
  define xs where "xs = ys @ [2 :: nat]"
  from ne obtain k where k: "length args = Suc k" by (cases args) auto
  have "[2..<2 + Suc k] = 2 # [Suc 2..<Suc 2 + k]" by (rule upt_add_Suc)
  moreover have "Suc 2 = 3" "Suc 2 + k = 2 + Suc k" by simp_all
  ultimately have "[2..<2 + Suc k] = 2 # [3..<2 + Suc k]" by metis
  then have u: "rev [2..<2 + length args] = xs"
    unfolding k xs_def ys_def by (simp only: rev.simps)
  from inserts_from_fresh [of args] obtain s'
    where r: "run (insert_ops args) fresh = Inr s'"
      and l: "linked s' 0 xs 1" and m: "\<not> Mux (ll s')"
      and z: "Size (ll s') = of_nat (length args)" unfolding u by blast
  from z w have z1: "Size (ll s') = 1" by simp
  let ?t = "s'\<lparr>trace := trace s' @ [Lock, Rd ListSize, Rd ListSize, Unlock]\<rparr>"
  have x: "xs \<noteq> []" and la: "last xs = 2" and bl: "butlast xs = ys"
    by (simp_all add: xs_def)
  from split_at_last [OF x, of 0 1] obtain pre y
    where c: "0 # xs @ [1] = pre @ [y, last xs, 1]"
      and c': "0 # butlast xs @ [1] = pre @ [y, 1]" by blast
  from c c' have d: "0 # xs @ [1] = pre @ [y, last xs, 1] @ []"
    "0 # butlast xs @ [1] = pre @ [y, 1] @ []" by simp_all
  have l': "linked ?t 0 xs 1" using l by simp
  have "\<not> Mux (ll ?t)" "Size (ll ?t) \<noteq> 0" using m z1 by simp_all
  note R = RemoveLast_linked [OF l' this(1) c this(2)]
  let ?u = "?t\<lparr>heap := unlink (heap ?t) y 1,
           ll := (ll ?t)\<lparr>Size := Size (ll ?t) - 1, Mux := False\<rparr>,
           trace := trace ?t @
             [Lock, Rd ListSize, Rd ListTail, Rd (NodePrev 1), Rd (NodePrev (last xs)),
              Rd ListTail, Wr (NodeNext y), Rd ListTail, Rd (NodePrev (last xs)),
              Wr (NodePrev 1), Wr ListSize, Unlock]\<rparr>"
  have "linked ?u 0 (butlast xs) 1"
    by (rule linked_unlink [OF l' d]) simp_all
  then have e: "elements ?u = ys" unfolding bl by (rule linked_elements)
  have "RemoveNode p s' = Inr ((Some (last xs), None), ?u)"
    unfolding RemoveNode_single [OF m z1] seq_def R by (simp add: ret_def)
  then have o: "outcome (call_after (insert_ops args) (RemoveNode p)) fresh =
      Some ((Some (last xs), None), Size (ll ?u), elements ?u)"
    by (simp add: outcome_def call_after_def r)
  have sz: "Size (ll ?u) = 0" using z1 by simp
  have "outcome (call_after (insert_ops args) (RemoveNode p)) fresh =
      Some ((Some (last xs), None), 0, ys)"
    unfolding o e sz ..
  then show ?thesis
    unfolding la ys_def .
qed

lemma one_entry_inv: "list_inv one_entry 0 [2] 1"
  by (simp add: one_entry_def list_inv_def linked_def)

lemma step_ok:
  assumes i: "list_ok s ha xs ta" and a: "allowed c s"
  shows "\<exists>res s' xs'. apply_op c s = Inr (res, s') \<and> list_ok s' ha xs' ta"
proof -
  from i have l: "linked s ha xs ta" and o: "sorted_wrt (>) xs" and m: "\<not> Mux (ll s)"
    and sz: "Size (ll s) = of_nat (length xs)"
    by (simp_all add: list_ok_def)
  from l have dx: "distinct xs" by (simp add: linked_def)
  have last_gone: "\<exists>res s'. RemoveLast (s\<lparr>trace := t\<rparr>) = Inr (res, s') \<and>
      list_ok s' ha (butlast xs) ta" if nz: "Size (ll s) \<noteq> 0" for t
  proof -
    from nz sz have x: "xs \<noteq> []" by auto
    from split_at_last [OF x] obtain pre y
      where c: "ha # xs @ [ta] = pre @ [y, last xs, ta]"
        and c': "ha # butlast xs @ [ta] = pre @ [y, ta]" by blast
    from c c' have d: "ha # xs @ [ta] = pre @ [y, last xs, ta] @ []"
      "ha # butlast xs @ [ta] = pre @ [y, ta] @ []" by simp_all
    let ?t = "s\<lparr>trace := t\<rparr>"
    have l': "linked ?t ha xs ta" using l by simp
    have "\<not> Mux (ll ?t)" "Size (ll ?t) \<noteq> 0" using m nz by simp_all
    note R = RemoveLast_linked [OF l' this(1) c this(2)]
    have "list_ok ?t ha xs ta" using i by simp
    from unlink_ok [OF this d sorted_wrt_butlast [OF o] _ x] show ?thesis
      unfolding R by simp
  qed
  show ?thesis
  proof (cases c)
    case (OpInsert k v ttl now)
    let ?n = "\<lparr>Key = k, Value = v, TTL = ttl, CreatedAt = now, Prev = Some ha,
                Next = Some (hd (xs @ [ta])), NMux = False\<rparr>"
    let ?s = "s\<lparr>heap := splice (heap s) ?n ha (hd (xs @ [ta])),
             ll := (ll s)\<lparr>Size := Size (ll s) + 1, Mux := False\<rparr>,
             trace := trace s @
               [Lock, Rd ListHead, Wr (NodePrev (length (heap s))), Rd ListHead, Rd (NodeNext ha),
                Wr (NodeNext (length (heap s))), Rd ListHead, Wr (NodeNext ha),
                Rd (NodeNext (length (heap s))), Wr (NodePrev (hd (xs @ [ta]))), Wr ListSize,
                Unlock]\<rparr>"
    have r: "Insert k v ttl now s = Inr ((Some (length (heap s)), None), ?s)"
      by (rule Insert_linked [OF l m])
    have "linked ?s ha (length (heap s) # xs) ta"
      by (rule Insert_keeps_linked [OF l]) simp_all
    moreover have "sorted_wrt (>) (length (heap s) # xs)"
      using o linked_bound [OF l] by auto
    ultimately have "list_ok ?s ha (length (heap s) # xs) ta"
      using sz by (simp add: list_ok_def)
    with r show ?thesis unfolding OpInsert by auto
  next
    case OpRemoveLast
    show ?thesis
    proof (cases "Size (ll s) = 0")
      case True
      from empty_effect(1) [OF m True] i show ?thesis unfolding OpRemoveLast by auto
    next
      case False
      from last_gone [OF False, of "trace s"] show ?thesis unfolding OpRemoveLast by auto
    qed
  next
    case (OpRemoveNode p)
    from i have "elements s = xs" by (rule list_ok_elements)
    with a OpRemoveNode obtain e where p: "p = Some e" and e: "e \<in> set xs"
      by (cases p) auto
    show ?thesis
    proof (cases "Size (ll s) = 0")
      case True
      from empty_effect(2) [OF m True, of p] i show ?thesis unfolding OpRemoveNode by auto
    next
      case nz: False
      show ?thesis
      proof (cases "Size (ll s) = 1")
        case True
        from last_gone [OF nz, of "trace s @ [Lock, Rd ListSize, Rd ListSize, Unlock]"]
        obtain res s' where
          "RemoveLast (s\<lparr>trace := trace s @ [Lock, Rd ListSize, Rd ListSize, Unlock]\<rparr>) =
             Inr (res, s')" "list_ok s' ha (butlast xs) ta" by blast
        then show ?thesis
          unfolding OpRemoveNode apply_op.simps RemoveNode_single [OF m True]
          by (auto simp: seq_def ret_def)
      next
        case False
        from split_at [OF e dx] obtain pre y z post
          where c: "ha # xs @ [ta] = pre @ [y, e, z] @ post"
            and c': "ha # remove1 e xs @ [ta] = pre @ [y, z] @ post" by blast
        from e have ne: "xs \<noteq> []" by auto
        have "length (remove1 e xs) = length xs - 1" using e by (simp add: length_remove1)
        from unlink_ok [OF i c c' sorted_wrt_remove1 [OF dx o] this ne] show ?thesis
          unfolding OpRemoveNode p apply_op.simps RemoveNode_linked [OF l m c nz False] by blast
      qed
    qed
  next
    case OpGetLastNode
    show ?thesis
    proof (cases "Size (ll s) = 0")
      case True
      from empty_effect(3) [OF m True] i show ?thesis unfolding OpGetLastNode by auto
    next
      case False
      from GetLastNode_linked [OF l m False] i show ?thesis unfolding OpGetLastNode by auto
    qed
  qed
qed

lemma run_ok:
  "list_ok s ha xs ta \<Longrightarrow> only_linked cs s \<Longrightarrow>
   \<exists>s' xs'. run cs s = Inr s' \<and> list_ok s' ha xs' ta"
proof (induction cs arbitrary: s xs)
  case Nil
  then show ?case by auto
next
  case (Cons c cs)
  from Cons.prems have a: "allowed c s" by simp
  from step_ok [OF Cons.prems(1) a] obtain res s1 xs1
    where e: "apply_op c s = Inr (res, s1)" and i: "list_ok s1 ha xs1 ta" by blast
  from Cons.prems e have "only_linked cs s1" by simp
  from Cons.IH [OF i this] e show ?case by simp
qed

lemma length_rev_upt: "length (rev [2..<2 + n]) = n"
  unfolding length_rev length_upt by simp

lemma oldest_in_rev_upt: "0 < n \<Longrightarrow> 2 \<in> set (rev [2..<2 + n])"
  unfolding set_rev set_upt by simp

lemma newest_in_rev_upt: "2 + n \<in> set (rev [2..<2 + (n + 1)])"
  unfolding set_rev set_upt by simp

lemma newest_stays_in_rev_upt: "0 < n \<Longrightarrow> 2 + n \<in> set (rev [3..<2 + (n + 1)])"
  unfolding set_rev set_upt by simp

lemma length_numbered: "length (numbered n) = n"
  by (simp add: numbered_def)

lemma two_entries_ok: "list_ok two_entries 0 [3, 2] 1"
  by (rule list_inv_ok [OF two_entries_inv])

lemma one_entry_ok: "list_ok one_entry 0 [2] 1"
  by (rule list_inv_ok [OF one_entry_inv])

lemma RemoveNode_gap:
  assumes "\<not> Mux (ll s)" "Size (ll s) \<noteq> 0" "Size (ll s) \<noteq> 1"
  shows "RemoveNode node s =
    RemoveNode_relink node (s\<lparr>trace := trace s @ [Lock, Rd ListSize, Rd ListSize, Unlock]\<rparr>)"
  using assms by (simp add: RemoveNode_def RemoveNode_relink_def prims Mux_False_same)

text \<open>
  The logs of the calls that return. \<open>Insert\<close> and \<open>RemoveLast\<close>: the first event takes the
  lock, the last one releases it, no lock operation lies between them. \<open>RemoveNode\<close>: every
  read and write happens while the lock is held. \<open>GetLastNode\<close>: the size is read under the
  lock. All four return with the lock free.
\<close>

lemma returning_calls_log:
  "(Insert k v ttl now s = Inr (r, s') \<longrightarrow>
      held_throughout (new_events s s') \<and> guarded False (new_events s s') \<and>
      \<not> Mux (ll s')) \<and>
   (RemoveLast s = Inr (r, s') \<longrightarrow>
      held_throughout (new_events s s') \<and> guarded False (new_events s s') \<and>
      \<not> Mux (ll s')) \<and>
   (RemoveNode p s = Inr (r, s') \<longrightarrow>
      hd (new_events s s') = Lock \<and> last (new_events s s') = Unlock \<and>
      guarded False (new_events s s') \<and> \<not> Mux (ll s')) \<and>
   (GetLastNode s = Inr (r, s') \<longrightarrow>
      take 3 (new_events s s') = [Lock, Rd ListSize, Unlock] \<and> \<not> Mux (ll s'))"
proof -
  have "Insert k v ttl now s = Inr (r, s') \<Longrightarrow>
      held_throughout (new_events s s') \<and> guarded False (new_events s s') \<and>
      \<not> Mux (ll s')"
    using Insert_returns [of k v ttl now s r s']
    by (auto simp: held_throughout_simps)
  moreover have "RemoveLast s = Inr (r, s') \<Longrightarrow>
      held_throughout (new_events s s') \<and> guarded False (new_events s s') \<and>
      \<not> Mux (ll s')"
    using RemoveLast_returns [of s r s']
    by (auto simp: held_throughout_simps)
  moreover have "RemoveNode p s = Inr (r, s') \<Longrightarrow>
      hd (new_events s s') = Lock \<and> last (new_events s s') = Unlock \<and>
      guarded False (new_events s s') \<and> \<not> Mux (ll s')"
    using RemoveNode_returns [of p s r s']
    by auto
  moreover have "GetLastNode s = Inr (r, s') \<Longrightarrow>
      take 3 (new_events s s') = [Lock, Rd ListSize, Unlock] \<and> \<not> Mux (ll s')"
    using GetLastNode_returns [of s r s']
    by auto
  ultimately show ?thesis by blast
qed

section \<open>The claims\<close>

subsection \<open>C1: the invariant, for every sequence of calls\<close>

text \<open>
  C1, with the bound that the \<open>int32\<close> size needs. Take any sequence of calls of \<open>Insert\<close>,
  \<open>RemoveLast\<close>, \<open>RemoveNode\<close> and \<open>GetLastNode\<close> on the list that \<open>InitList\<close> returned, in
  which \<open>RemoveNode\<close> is only called on elements linked at that time and \<open>Insert\<close> is never
  called while \<open>Size\<close> is 2147483647. Then every call returns, and at the end: following
  \<open>Next\<close> from \<open>ll.Head\<close> one visits the head sentinel, the real elements and the tail
  sentinel and then reaches \<open>nil\<close>; following \<open>Prev\<close> from \<open>ll.Tail\<close> one visits the same
  nodes in reverse; \<open>Size\<close> is not negative and is the number of real elements.
\<close>

theorem invariant_kept:
  assumes "InitList t1 t2 s0 = Inr (u, s1)" and "only_linked cs s1" and "below_MaxInt32 cs s1"
  shows "\<exists>s. run cs s1 = Inr s \<and>
     chain Next (heap s) (Head (ll s))
       (length (heap s0) # elements s @ [Suc (length (heap s0))]) None \<and>
     chain Prev (heap s) (Tail (ll s))
       (rev (length (heap s0) # elements s @ [Suc (length (heap s0))])) None \<and>
     0 \<le> sint (Size (ll s)) \<and> sint (Size (ll s)) = int (length (elements s)) \<and>
     list_inv s (length (heap s0)) (elements s) (Suc (length (heap s0)))"
proof -
  from InitList_inv [of t1 t2 s0] assms(1)
  have "list_inv s1 (length (heap s0)) [] (Suc (length (heap s0)))" by auto
  from run_inv [OF this assms(2,3)] obtain s xs
    where r: "run cs s1 = Inr s"
      and i: "list_inv s (length (heap s0)) xs (Suc (length (heap s0)))" by blast
  from i have e: "elements s = xs" by (rule list_inv_elements)
  from i have "chain Next (heap s) (Head (ll s))
       (length (heap s0) # xs @ [Suc (length (heap s0))]) None"
    "chain Prev (heap s) (Tail (ll s))
       (rev (length (heap s0) # xs @ [Suc (length (heap s0))])) None"
    "sint (Size (ll s)) = int (length xs)"
    by (simp_all add: list_inv_def linked_def)
  with r i e show ?thesis by simp
qed

text \<open>
  The scenario of the specification: two inserts, a peek, \<open>RemoveLast\<close>, \<open>RemoveNode\<close> of the
  remaining element, and a peek at the empty list.
\<close>

theorem invariant_kept_witness:
  "InitList 5 6 empty_store = Inr ((), fresh) \<and>
   only_linked [OpInsert ''a'' (AnyVal 1) 60 7, OpInsert ''b'' (AnyVal 2) 60 8, OpGetLastNode,
                OpRemoveLast, OpRemoveNode (Some 3), OpGetLastNode] fresh \<and>
   below_MaxInt32 [OpInsert ''a'' (AnyVal 1) 60 7, OpInsert ''b'' (AnyVal 2) 60 8, OpGetLastNode,
                OpRemoveLast, OpRemoveNode (Some 3), OpGetLastNode] fresh \<and>
   (\<exists>s. run [OpInsert ''a'' (AnyVal 1) 60 7, OpInsert ''b'' (AnyVal 2) 60 8, OpGetLastNode,
             OpRemoveLast, OpRemoveNode (Some 3), OpGetLastNode] fresh = Inr s \<and>
        elements s = [] \<and> sint (Size (ll s)) = 0 \<and> list_inv s 0 [] 1)"
proof -
  let ?cs = "[OpInsert ''a'' (AnyVal 1) 60 7, OpInsert ''b'' (AnyVal 2) 60 8, OpGetLastNode,
                OpRemoveLast, OpRemoveNode (Some 3), OpGetLastNode] :: nat op list"
  have a: "only_linked ?cs fresh"
    by (simp add: fresh_def Insert_def RemoveLast_def RemoveNode_def GetLastNode_def prims
        elements_def)
  have b: "below_MaxInt32 ?cs fresh"
    by (simp add: fresh_def Insert_def RemoveLast_def RemoveNode_def GetLastNode_def prims)
  have c: "run ?cs fresh = Inr X \<Longrightarrow> elements X = []" for X
    by (auto simp add: fresh_def Insert_def RemoveLast_def RemoveNode_def GetLastNode_def prims
        elements_def)
  from invariant_kept [OF InitList_fresh a b] c InitList_fresh a b show ?thesis
    by (auto simp: empty_store_def)
qed

text \<open>
  C1 as stated, for every sequence, fails: after \<open>2^31\<close> calls of \<open>Insert\<close> on the list that
  \<open>InitList\<close> returned (a sequence without any \<open>RemoveNode\<close>), all of which return,
  \<open>atomic.AddInt32\<close> has wrapped around and \<open>Size\<close> is \<open>-2147483648\<close>.
\<close>

theorem size_negative_after_many_inserts:
  "InitList 5 6 empty_store = Inr ((), fresh) \<and>
   only_linked (insert_ops (replicate (2 ^ 31) (''k'', AnyVal 0, 60, 0))) fresh \<and>
   size_after (insert_ops (replicate (2 ^ 31) (''k'', AnyVal 0, 60, 0))) fresh =
     Some (- 2147483648)"
  by (simp add: InitList_fresh only_linked_inserts size_after_inserts)

subsection \<open>C2: a run of \<open>Insert\<close> calls\<close>

text \<open>
  C2, with the bound that the \<open>int32\<close> size needs. After fewer than \<open>2^31\<close> calls of
  \<open>Insert\<close> on the list that \<open>InitList\<close> returned, \<open>Size\<close> is the number of calls, and the
  walk from the head to the tail finds as many real elements, whose keys are the inserted
  keys in reverse order of insertion (most recent first). This holds whether or not the
  keys are distinct.
\<close>

theorem inserts_in_order:
  assumes "InitList t1 t2 s0 = Inr (u, s1)" and "length args < 2 ^ 31"
  shows "\<exists>s. run (insert_ops args) s1 = Inr s \<and>
     sint (Size (ll s)) = int (length args) \<and> length (elements s) = length args \<and>
     keys_of s (elements s) = rev (map fst args) \<and>
     list_inv s (length (heap s0)) (elements s) (Suc (length (heap s0)))"
proof -
  from InitList_inv [of t1 t2 s0] assms(1)
  have i: "list_inv s1 (length (heap s0)) [] (Suc (length (heap s0)))" by auto
  from assms(2) have "length ([] :: addr list) + length args < 2 ^ 31" by simp
  from inserts_inv [OF i this] obtain s ys
    where r: "run (insert_ops args) s1 = Inr s"
      and i': "list_inv s (length (heap s0)) (ys @ []) (Suc (length (heap s0)))"
      and n: "length ys = length args"
      and k: "keys_of s (ys @ []) = rev (map fst args) @ keys_of s1 []" by blast
  from i' have e: "elements s = ys" using list_inv_elements [of s _ ys] by simp
  from i' have "sint (Size (ll s)) = int (length ys)" by (simp add: list_inv_def)
  with r i' n k e show ?thesis by (simp add: keys_of_def)
qed

text \<open>Inserting \<open>a\<close> and then \<open>b\<close>: the walk yields \<open>b\<close>, \<open>a\<close>.\<close>

theorem inserts_in_order_witness:
  "InitList 5 6 empty_store = Inr ((), fresh) \<and>
   length [(''a'', AnyVal 1, 60, 7), (''b'', AnyVal (2 :: nat), 60, 8 :: 64 word)] < 2 ^ 31 \<and>
   (\<exists>s. run (insert_ops [(''a'', AnyVal 1, 60, 7), (''b'', AnyVal 2, 60, 8)]) fresh = Inr s \<and>
        sint (Size (ll s)) = 2 \<and> keys_of s (elements s) = [''b'', ''a''] \<and>
        list_inv s 0 (elements s) 1)"
proof -
  have n: "length [(''a'', AnyVal 1, 60, 7), (''b'', AnyVal (2 :: nat), 60 :: 64 word, 8 :: 64 word)]
      < 2 ^ 31" by simp
  from inserts_in_order [OF InitList_fresh n] InitList_fresh show ?thesis
    by (auto simp: empty_store_def)
qed

text \<open>
  C2 as stated, for every sequence, fails: after the \<open>2^31\<close> calls of \<open>Insert\<close> with the
  pairwise different keys \<open>k\<close>, \<open>kk\<close>, \<open>kkk\<close>, ... \<open>Size\<close> is \<open>-2147483648\<close>, not the number
  of inserts.
\<close>

theorem size_wraps_after_many_distinct_inserts:
  "InitList 5 6 empty_store = Inr ((), fresh) \<and>
   distinct (map fst (numbered (2 ^ 31))) \<and> length (numbered (2 ^ 31)) = 2147483648 \<and>
   size_after (insert_ops (numbered (2 ^ 31))) fresh = Some (- 2147483648)"
  by (simp add: InitList_fresh distinct_numbered size_after_inserts) (simp add: numbered_def)

subsection \<open>C3: \<open>RemoveLast\<close> on a list with elements\<close>

text \<open>
  C3, with the bound that the \<open>int32\<close> size needs. Take a list that is linked, with a free
  lock and \<open>Size\<close> equal to the number of real elements modulo \<open>2^32\<close> (what every sequence of
  calls leaves, \<open>run_ok\<close>), with at least one and fewer than \<open>2^32\<close> real elements. Then
  \<open>RemoveLast\<close> returns, with no error, the element next to the tail sentinel (\<open>tail.Prev\<close>,
  the last of the chain). It is the one inserted longest ago among the linked elements:
  its address is the smallest of them, and addresses are given out in the order of the
  insertions (\<open>Insert_allocates\<close>, \<open>removals_allocate_nothing\<close>). After the call the chain is
  the old one without it, and \<open>Size\<close> is smaller by exactly one in \<open>int32\<close> arithmetic: by
  one as a number unless it was \<open>-2147483648\<close>. With fewer than \<open>2^31\<close> elements the
  invariant \<open>list_inv\<close> holds again.
\<close>

theorem RemoveLast_removes_oldest:
  assumes i: "list_ok s ha xs ta" and x: "xs \<noteq> []" and b: "length xs < 2 ^ 32"
  shows "\<exists>s'. RemoveLast s = Inr ((Some (last xs), None), s') \<and>
     Prev (heap s ! ta) = Some (last xs) \<and> (\<forall>x\<in>set xs. last xs \<le> x) \<and>
     list_ok s' ha (butlast xs) ta \<and> elements s' = butlast xs \<and>
     last xs \<notin> set (elements s') \<and>
     Size (ll s') = Size (ll s) - 1 \<and>
     (Size (ll s) \<noteq> - 2147483648 \<longrightarrow> sint (Size (ll s')) = sint (Size (ll s)) - 1) \<and>
     (list_inv s ha xs ta \<longrightarrow> list_inv s' ha (butlast xs) ta)"
proof -
  from i have l: "linked s ha xs ta" and o: "sorted_wrt (>) xs" and m: "\<not> Mux (ll s)"
    and sz: "Size (ll s) = of_nat (length xs)"
    by (simp_all add: list_ok_def)
  have nz: "Size (ll s) \<noteq> 0" using Size_of_nat_zero [OF b] sz x by simp
  from split_at_last [OF x] obtain pre y
    where c: "ha # xs @ [ta] = pre @ [y, last xs, ta]"
      and c': "ha # butlast xs @ [ta] = pre @ [y, ta]" by blast
  from c c' have d: "ha # xs @ [ta] = pre @ [y, last xs, ta] @ []"
    "ha # butlast xs @ [ta] = pre @ [y, ta] @ []" by simp_all
  let ?s = "s\<lparr>heap := unlink (heap s) y ta,
           ll := (ll s)\<lparr>Size := Size (ll s) - 1, Mux := False\<rparr>,
           trace := trace s @
             [Lock, Rd ListSize, Rd ListTail, Rd (NodePrev ta), Rd (NodePrev (last xs)),
              Rd ListTail, Wr (NodeNext y), Rd ListTail, Rd (NodePrev (last xs)),
              Wr (NodePrev ta), Wr ListSize, Unlock]\<rparr>"
  have r: "RemoveLast s = Inr ((Some (last xs), None), ?s)"
    by (rule RemoveLast_linked [OF l m c nz])
  have i': "list_ok ?s ha (butlast xs) ta"
    using unlink_ok [OF i d sorted_wrt_butlast [OF o] _ x] by simp
  then have e: "elements ?s = butlast xs"
    by (rule list_ok_elements)
  from l have "distinct xs" by (simp add: linked_def)
  then have n: "last xs \<notin> set (butlast xs)"
    using x by (cases xs rule: rev_cases) auto
  have p: "Prev (heap s ! ta) = Some (last xs)"
    using linked_neighbours(7) [OF l d(1)] .
  have q: "Size (ll s) \<noteq> - 2147483648 \<longrightarrow> sint (Size (ll ?s)) = sint (Size (ll s)) - 1"
    using Size_sint_pred [of "Size (ll s)"] by simp
  have v: "list_inv s ha xs ta \<longrightarrow> list_inv ?s ha (butlast xs) ta"
  proof
    assume "list_inv s ha xs ta"
    from RemoveLast_inv [OF this x] r show "list_inv ?s ha (butlast xs) ta" by auto
  qed
  from r i' e n p q v oldest_last [OF o] show ?thesis by auto
qed

text \<open>On the list with \<open>b\<close> (node 3) before \<open>a\<close> (node 2): node 2 goes, node 3 stays.\<close>

theorem RemoveLast_removes_oldest_witness:
  "list_ok two_entries 0 [3, 2] 1 \<and> [3, 2] \<noteq> ([] :: nat list) \<and>
   length [3, 2 :: nat] < 2 ^ 32 \<and>
   Size (ll two_entries) \<noteq> - 2147483648 \<and> list_inv two_entries 0 [3, 2] 1 \<and>
   (\<exists>s'. RemoveLast two_entries = Inr ((Some 2, None), s') \<and>
      Prev (heap two_entries ! 1) = Some 2 \<and>
      list_ok s' 0 [3] 1 \<and> list_inv s' 0 [3] 1 \<and> elements s' = [3] \<and> Size (ll s') = 1 \<and>
      sint (Size (ll s')) = sint (Size (ll two_entries)) - 1)"
proof -
  have a: "[3, 2] \<noteq> ([] :: nat list)" "length [3, 2 :: nat] < 2 ^ 32" by simp_all
  have b: "Size (ll two_entries) \<noteq> - 2147483648" by (simp add: two_entries_def)
  from RemoveLast_removes_oldest [OF two_entries_ok a] a b two_entries_ok two_entries_inv
  show ?thesis
    by (auto simp: two_entries_def)
qed

text \<open>
  C3 as stated, for every list with a real element, fails: after \<open>2^32\<close> calls of \<open>Insert\<close>
  on the list that \<open>InitList\<close> returned, the nodes \<open>2, ..., 2^32 + 1\<close> are linked, \<open>Size\<close> has
  wrapped around to 0, and \<open>RemoveLast\<close> returns \<open>nil\<close> and \<open>"List is empty"\<close> and removes
  nothing.
\<close>

theorem RemoveLast_error_on_wrapped_list:
  "InitList 5 6 empty_store = Inr ((), fresh) \<and>
   outcome (call_after (insert_ops (replicate (2 ^ 32) (''k'', AnyVal 0, 60, 0))) RemoveLast) fresh =
     Some ((None, Some (errors_New ''List is empty'')), 0, rev [2..<2 + 2 ^ 32]) \<and>
   length (rev [2..<2 + 2 ^ 32 :: nat]) = 2 ^ 32"
proof -
  have z: "of_nat (length (replicate (2 ^ 32) (''k'', AnyVal (0 :: nat), 60 :: 64 word, 0 :: 64 word)))
      = (0 :: 32 word)" by simp
  have "outcome (call_after (insert_ops (replicate (2 ^ 32) (''k'', AnyVal 0, 60, 0))) RemoveLast)
      fresh = Some ((None, Some (errors_New ''List is empty'')), 0, rev [2..<2 + 2 ^ 32])"
    using wrapped_to_zero(1) [OF z] unfolding length_replicate .
  with InitList_fresh length_rev_upt [of "2 ^ 32"] show ?thesis by blast
qed

subsection \<open>C4: the empty list, and the only error\<close>

text \<open>
  C4. When \<open>Size\<close> is 0 (and the lock is free), \<open>RemoveLast\<close>, \<open>RemoveNode\<close> (with any
  argument) and \<open>GetLastNode\<close> each return \<open>nil\<close> and the error \<open>"List is empty"\<close>, and the
  \<open>List\<close> object and the whole heap are as before. And in any state \<open>t\<close> whatever: when one
  of the four functions returns an error, it is this error, the node returned is \<open>nil\<close>,
  and \<open>Size\<close> was 0.
\<close>

theorem empty_list_errors:
  assumes "Size (ll s) = 0" and "\<not> Mux (ll s)"
  shows "(\<exists>s'. RemoveLast s = Inr ((None, Some (errors_New ''List is empty'')), s') \<and>
            ll s' = ll s \<and> heap s' = heap s) \<and>
         (\<exists>s'. RemoveNode p s = Inr ((None, Some (errors_New ''List is empty'')), s') \<and>
            ll s' = ll s \<and> heap s' = heap s) \<and>
         (\<exists>s'. GetLastNode s = Inr ((None, Some (errors_New ''List is empty'')), s') \<and>
            ll s' = ll s \<and> heap s' = heap s) \<and>
         (Insert k v ttl now t = Inr ((r, Some e), t') \<or> RemoveLast t = Inr ((r, Some e), t') \<or>
          RemoveNode q t = Inr ((r, Some e), t') \<or> GetLastNode t = Inr ((r, Some e), t')
          \<longrightarrow> e = errors_New ''List is empty'' \<and> r = None \<and> Size (ll t) = 0)"
proof -
  have "Insert k v ttl now t \<noteq> Inr ((r, Some e), t')"
    using Insert_returns [of k v ttl now t "(r, Some e)" t'] by auto
  moreover have "RemoveLast t = Inr ((r, Some e), t') \<Longrightarrow>
      e = errors_New ''List is empty'' \<and> r = None \<and> Size (ll t) = 0"
    using RemoveLast_returns [of t "(r, Some e)" t'] by auto
  moreover have "RemoveNode q t = Inr ((r, Some e), t') \<Longrightarrow>
      e = errors_New ''List is empty'' \<and> r = None \<and> Size (ll t) = 0"
    using RemoveNode_returns [of q t "(r, Some e)" t'] by auto
  moreover have "GetLastNode t = Inr ((r, Some e), t') \<Longrightarrow>
      e = errors_New ''List is empty'' \<and> r = None \<and> Size (ll t) = 0"
    using GetLastNode_returns [of t "(r, Some e)" t'] by auto
  ultimately show ?thesis
    using empty_effect(1) [OF assms(2,1)] empty_effect(2) [OF assms(2,1), of p]
      empty_effect(3) [OF assms(2,1)]
    by auto
qed

text \<open>On the list that \<open>InitList\<close> made.\<close>

theorem empty_list_errors_witness:
  "Size (ll fresh) = 0 \<and> \<not> Mux (ll fresh) \<and>
   (\<exists>s'. RemoveLast fresh = Inr ((None, Some (errors_New ''List is empty'')), s') \<and>
      ll s' = ll fresh \<and> heap s' = heap fresh) \<and>
   (\<exists>s'. RemoveNode (Some 0) fresh = Inr ((None, Some (errors_New ''List is empty'')), s') \<and>
      ll s' = ll fresh \<and> heap s' = heap fresh) \<and>
   (\<exists>s'. GetLastNode fresh = Inr ((None, Some (errors_New ''List is empty'')), s') \<and>
      ll s' = ll fresh \<and> heap s' = heap fresh) \<and>
   RemoveLast fresh =
     Inr ((None, Some (errors_New ''List is empty'')),
          fresh\<lparr>trace := trace fresh @ [Lock, Rd ListSize, Unlock]\<rparr>)"
proof -
  have a: "Size (ll fresh) = 0" "\<not> Mux (ll fresh)" by (simp_all add: fresh_def)
  have b: "RemoveLast fresh =
     Inr ((None, Some (errors_New ''List is empty'')),
          fresh\<lparr>trace := trace fresh @ [Lock, Rd ListSize, Unlock]\<rparr>)"
    by (rule empty_effect(1) [OF a(2,1)])
  from empty_list_errors [OF a, where p = "Some 0" and t = fresh and r = None
      and e = "errors_New ''List is empty''"
      and t' = "fresh\<lparr>trace := trace fresh @ [Lock, Rd ListSize, Unlock]\<rparr>"]
    a b show ?thesis by blast
qed

subsection \<open>C5: \<open>RemoveNode\<close> on a linked element\<close>

text \<open>
  C5, with the bound that the \<open>int32\<close> size needs. Take a list that is linked, with a free
  lock and \<open>Size\<close> equal to the number of real elements modulo \<open>2^32\<close>, with fewer than \<open>2^32\<close>
  real elements, and an element \<open>e\<close> that is linked in it, with \<open>y\<close> before it and \<open>z\<close> after
  it in the chain. Then \<open>RemoveNode\<close> returns \<open>e\<close> with no error; afterwards \<open>y.Next\<close> is \<open>z\<close>
  and \<open>z.Prev\<close> is \<open>y\<close>, the chain is the old one without \<open>e\<close> (a walk does not meet \<open>e\<close>),
  and \<open>Size\<close> is smaller by one in \<open>int32\<close> arithmetic: by one as a number unless it was
  \<open>-2147483648\<close>. With fewer than \<open>2^31\<close> elements the invariant \<open>list_inv\<close> holds again.
  When \<open>e\<close> is the only element, the call is, after the size check under the lock, the
  call of \<open>RemoveLast\<close>.
\<close>

theorem RemoveNode_unlinks:
  assumes i: "list_ok s ha xs ta" and e: "e \<in> set xs" and b: "length xs < 2 ^ 32"
  shows "\<exists>pre y z post s'. ha # xs @ [ta] = pre @ [y, e, z] @ post \<and>
     RemoveNode (Some e) s = Inr ((Some e, None), s') \<and>
     Next (heap s' ! y) = Some z \<and> Prev (heap s' ! z) = Some y \<and>
     ha # remove1 e xs @ [ta] = pre @ [y, z] @ post \<and>
     list_ok s' ha (remove1 e xs) ta \<and> elements s' = remove1 e xs \<and>
     e \<notin> set (elements s') \<and>
     Size (ll s') = Size (ll s) - 1 \<and>
     (Size (ll s) \<noteq> - 2147483648 \<longrightarrow> sint (Size (ll s')) = sint (Size (ll s)) - 1) \<and>
     (list_inv s ha xs ta \<longrightarrow> list_inv s' ha (remove1 e xs) ta) \<and>
     (length xs = 1 \<longrightarrow>
        RemoveNode (Some e) s =
        RemoveLast (s\<lparr>trace := trace s @ [Lock, Rd ListSize, Rd ListSize, Unlock]\<rparr>))"
proof -
  from i have l: "linked s ha xs ta" and o: "sorted_wrt (>) xs" and m: "\<not> Mux (ll s)"
    and sz: "Size (ll s) = of_nat (length xs)"
    by (simp_all add: list_ok_def)
  from l have dx: "distinct xs" by (simp add: linked_def)
  from e have ne: "xs \<noteq> []" by auto
  have nz: "Size (ll s) \<noteq> 0" using Size_of_nat_zero [OF b] sz ne by simp
  from split_at [OF e dx] obtain pre y z post
    where c: "ha # xs @ [ta] = pre @ [y, e, z] @ post"
      and c': "ha # remove1 e xs @ [ta] = pre @ [y, z] @ post" by blast
  from RemoveNode_ok_state [OF i c b] obtain t where
    r: "RemoveNode (Some e) s = Inr ((Some e, None),
         s\<lparr>heap := unlink (heap s) y z,
           ll := (ll s)\<lparr>Size := Size (ll s) - 1, Mux := False\<rparr>, trace := t\<rparr>)" by blast
  let ?s = "s\<lparr>heap := unlink (heap s) y z,
           ll := (ll s)\<lparr>Size := Size (ll s) - 1, Mux := False\<rparr>, trace := t\<rparr>"
  have i': "list_ok ?s ha (remove1 e xs) ta"
    using unlink_ok [OF i c c' sorted_wrt_remove1 [OF dx o] _ ne] e
    by (simp add: length_remove1)
  then have el: "elements ?s = remove1 e xs"
    by (rule list_ok_elements)
  have n: "e \<notin> set (remove1 e xs)"
    using dx by simp
  have k: "Next (heap ?s ! y) = Some z \<and> Prev (heap ?s ! z) = Some y"
    using unlink_links [of y "heap s" z] linked_neighbours [OF l c] by simp
  have q: "Size (ll s) \<noteq> - 2147483648 \<longrightarrow> sint (Size (ll ?s)) = sint (Size (ll s)) - 1"
    using Size_sint_pred [of "Size (ll s)"] by simp
  have v: "list_inv s ha xs ta \<longrightarrow> list_inv ?s ha (remove1 e xs) ta"
  proof
    assume "list_inv s ha xs ta"
    from RemoveNode_inv [OF this e] r show "list_inv ?s ha (remove1 e xs) ta" by auto
  qed
  have g: "length xs = 1 \<longrightarrow>
        RemoveNode (Some e) s =
        RemoveLast (s\<lparr>trace := trace s @ [Lock, Rd ListSize, Rd ListSize, Unlock]\<rparr>)"
  proof
    assume one: "length xs = 1"
    with e have xs: "xs = [e]" by (cases xs) auto
    let ?t = "s\<lparr>trace := trace s @ [Lock, Rd ListSize, Rd ListSize, Unlock]\<rparr>"
    have s1: "Size (ll s) = 1" using sz one by simp
    have l': "linked ?t ha xs ta" using l by simp
    have c1: "ha # xs @ [ta] = [] @ [ha, e, ta]" by (simp add: xs)
    have "\<not> Mux (ll ?t)" "Size (ll ?t) \<noteq> 0" using m nz by simp_all
    from RemoveLast_linked [OF l' this(1) c1 this(2)]
    show "RemoveNode (Some e) s = RemoveLast ?t"
      unfolding RemoveNode_single [OF m s1] by (simp add: seq_def ret_def)
  qed
  from c r k c' i' el n q v g show ?thesis
    by (intro exI [of _ pre] exI [of _ y] exI [of _ z] exI [of _ post] exI [of _ ?s]) simp
qed

text \<open>
  Removing \<open>b\<close> (node 3), which lies between the head sentinel 0 and \<open>a\<close> (node 2); and
  removing the only element of a list with one entry.
\<close>

theorem RemoveNode_unlinks_witness:
  "list_ok two_entries 0 [3, 2] 1 \<and> 3 \<in> set [3, 2 :: nat] \<and> length [3, 2 :: nat] < 2 ^ 32 \<and>
   Size (ll two_entries) \<noteq> - 2147483648 \<and> list_inv two_entries 0 [3, 2] 1 \<and>
   (\<exists>s'. 0 # [3, 2] @ [1] = [] @ [0, 3, 2] @ [1 :: nat] \<and>
      RemoveNode (Some 3) two_entries = Inr ((Some 3, None), s') \<and>
      Next (heap s' ! 0) = Some 2 \<and> Prev (heap s' ! 2) = Some 0 \<and>
      list_ok s' 0 [2] 1 \<and> list_inv s' 0 [2] 1 \<and> elements s' = [2] \<and> Size (ll s') = 1 \<and>
      sint (Size (ll s')) = sint (Size (ll two_entries)) - 1) \<and>
   list_ok one_entry 0 [2] 1 \<and> 2 \<in> set [2 :: nat] \<and> length [2 :: nat] = 1 \<and>
   RemoveNode (Some 2) one_entry =
     RemoveLast (one_entry\<lparr>trace := trace one_entry @ [Lock, Rd ListSize, Rd ListSize, Unlock]\<rparr>)"
proof -
  have e: "3 \<in> set [3, 2 :: nat]" "length [3, 2 :: nat] < 2 ^ 32" by simp_all
  have b: "Size (ll two_entries) \<noteq> - 2147483648" by (simp add: two_entries_def)
  from RemoveNode_unlinks [OF two_entries_ok e] obtain pre y z post s'
    where c: "0 # [3, 2] @ [1] = pre @ [y, 3, z] @ post"
      and r: "RemoveNode (Some 3) two_entries = Inr ((Some 3, None), s')"
      "Next (heap s' ! y) = Some z" "Prev (heap s' ! z) = Some y"
      "list_ok s' 0 (remove1 3 [3, 2]) 1" "elements s' = remove1 3 [3, 2]"
      "Size (ll s') = Size (ll two_entries) - 1"
      "Size (ll two_entries) \<noteq> - 2147483648 \<longrightarrow>
         sint (Size (ll s')) = sint (Size (ll two_entries)) - 1"
      "list_inv two_entries 0 [3, 2] 1 \<longrightarrow> list_inv s' 0 (remove1 3 [3, 2]) 1"
    by blast
  from c have "pre = [] \<and> y = 0 \<and> z = 2"
    by (cases pre) (auto simp: Cons_eq_append_conv)
  with r b two_entries_inv
  have A: "\<exists>s'. 0 # [3, 2] @ [1] = [] @ [0, 3, 2] @ [1 :: nat] \<and>
      RemoveNode (Some 3) two_entries = Inr ((Some 3, None), s') \<and>
      Next (heap s' ! 0) = Some 2 \<and> Prev (heap s' ! 2) = Some 0 \<and>
      list_ok s' 0 [2] 1 \<and> list_inv s' 0 [2] 1 \<and> elements s' = [2] \<and> Size (ll s') = 1 \<and>
      sint (Size (ll s')) = sint (Size (ll two_entries)) - 1"
    by (auto simp: two_entries_def)
  have f: "2 \<in> set [2 :: nat]" "length [2 :: nat] < 2 ^ 32" by simp_all
  from RemoveNode_unlinks [OF one_entry_ok f]
  have B: "RemoveNode (Some 2) one_entry =
     RemoveLast (one_entry\<lparr>trace := trace one_entry @ [Lock, Rd ListSize, Rd ListSize, Unlock]\<rparr>)"
    by auto
  from A B e b f two_entries_ok two_entries_inv one_entry_ok show ?thesis by simp
qed

text \<open>
  C5 as stated, for every list, fails. After \<open>2^32\<close> calls of \<open>Insert\<close> on the list that
  \<open>InitList\<close> returned, \<open>Size\<close> is 0 and \<open>RemoveNode\<close> of the linked node 2 returns \<open>nil\<close> and
  \<open>"List is empty"\<close>. After \<open>2^32 + 1\<close> calls, \<open>Size\<close> is 1 and \<open>RemoveNode\<close> of the newest
  node \<open>2 + 2^32\<close> takes the \<open>RemoveLast\<close> path: it returns the oldest node 2, and the node
  it was called on is still linked.
\<close>

theorem RemoveNode_wrong_on_wrapped_list:
  "2 \<in> set (rev [2..<2 + 2 ^ 32]) \<and>
   outcome (call_after (insert_ops (replicate (2 ^ 32) (''k'', AnyVal 0, 60, 0)))
              (RemoveNode (Some 2))) fresh =
     Some ((None, Some (errors_New ''List is empty'')), 0, rev [2..<2 + 2 ^ 32]) \<and>
   2 + 2 ^ 32 \<in> set (rev [2..<2 + (2 ^ 32 + 1)]) \<and>
   outcome (call_after (insert_ops (replicate (2 ^ 32 + 1) (''k'', AnyVal 0, 60, 0)))
              (RemoveNode (Some (2 + 2 ^ 32)))) fresh =
     Some ((Some 2, None), 0, rev [3..<2 + (2 ^ 32 + 1)]) \<and>
   2 + 2 ^ 32 \<in> set (rev [3..<2 + (2 ^ 32 + 1)])"
proof -
  have p: "0 < (2 ^ 32 :: nat)" by simp
  have z: "of_nat (length (replicate (2 ^ 32) (''k'', AnyVal (0 :: nat), 60 :: 64 word, 0 :: 64 word)))
      = (0 :: 32 word)" by simp
  have o: "of_nat (length (replicate (2 ^ 32 + 1)
             (''k'', AnyVal (0 :: nat), 60 :: 64 word, 0 :: 64 word))) = (1 :: 32 word)" by simp
  have n: "replicate (2 ^ 32 + 1) (''k'', AnyVal (0 :: nat), 60 :: 64 word, 0 :: 64 word) \<noteq> []"
    by simp
  have "outcome (call_after (insert_ops (replicate (2 ^ 32) (''k'', AnyVal 0, 60, 0)))
              (RemoveNode (Some 2))) fresh =
     Some ((None, Some (errors_New ''List is empty'')), 0, rev [2..<2 + 2 ^ 32])"
    using wrapped_to_zero(2) [OF z] unfolding length_replicate .
  moreover have "outcome (call_after (insert_ops (replicate (2 ^ 32 + 1) (''k'', AnyVal 0, 60, 0)))
              (RemoveNode (Some (2 + 2 ^ 32)))) fresh =
     Some ((Some 2, None), 0, rev [3..<2 + (2 ^ 32 + 1)])"
    using wrapped_to_one [OF o n] unfolding length_replicate .
  ultimately show ?thesis
    using oldest_in_rev_upt [OF p] newest_in_rev_upt [of "2 ^ 32"]
      newest_stays_in_rev_upt [OF p] by blast
qed

subsection \<open>C6: the lock\<close>

text \<open>
  C6. The claim: \<open>Insert\<close>, \<open>RemoveLast\<close> and \<open>RemoveNode\<close> hold the list lock for the full
  duration of the call, and \<open>GetLastNode\<close> takes the lock for its read. The code, on the
  list with two entries: \<open>RemoveNode\<close> releases the lock after the size check and takes it
  again, so the lock is not held for the full duration of the call; \<open>GetLastNode\<close> reads
  \<open>ll.Tail\<close> and \<open>Tail.Prev\<close> after it has released the lock. (\<open>Insert\<close> and \<open>RemoveLast\<close> do
  what the claim says, \<open>returning_calls_log\<close>.)
\<close>

theorem lock_released_in_between:
  "events_of (RemoveNode (Some 3)) two_entries =
     [Lock, Rd ListSize, Rd ListSize, Unlock, Lock, Rd (NodePrev 3), Rd (NodeNext 3),
      Rd (NodeNext 3), Wr (NodeNext 0), Rd (NodePrev 3), Wr (NodePrev 2), Wr ListSize, Unlock] \<and>
   \<not> held_throughout (events_of (RemoveNode (Some 3)) two_entries) \<and>
   events_of GetLastNode two_entries = [Lock, Rd ListSize, Unlock, Rd ListTail, Rd (NodePrev 1)] \<and>
   \<not> guarded False (events_of GetLastNode two_entries)"
  by (simp add: events_of_def new_events_def RemoveNode_def GetLastNode_def prims two_entries_def
      held_throughout_def)

text \<open>
  What the gap allows. On the list with two entries, one goroutine calls \<open>RemoveNode\<close> on
  \<open>a\<close> (node 2); up to the \<open>Unlock\<close> of line 179 the call has only read \<open>Size\<close>, and what is
  left of it is \<open>RemoveNode_relink\<close>. If another goroutine runs \<open>RemoveLast\<close> at that point,
  it removes and returns node 2, and \<open>Size\<close> is 1. The first call then goes on, relinks
  the neighbours that node 2 had, and returns node 2 as well: \<open>Size\<close> is 0, and \<open>b\<close> (node 3)
  is still linked.
\<close>

lemma RemoveLast_in_the_gap:
  "RemoveNode (Some 2) two_entries =
     RemoveNode_relink (Some 2)
       (two_entries\<lparr>trace := [Lock, Rd ListSize, Rd ListSize, Unlock]\<rparr>) \<and>
   outcome RemoveLast (two_entries\<lparr>trace := [Lock, Rd ListSize, Rd ListSize, Unlock]\<rparr>) =
     Some ((Some 2, None), 1, [3]) \<and>
   outcome (call_after [OpRemoveLast] (RemoveNode_relink (Some 2)))
       (two_entries\<lparr>trace := [Lock, Rd ListSize, Rd ListSize, Unlock]\<rparr>) =
     Some ((Some 2, None), 0, [3])"
proof -
  have "\<not> Mux (ll two_entries)" "Size (ll two_entries) \<noteq> 0" "Size (ll two_entries) \<noteq> 1"
    by (simp_all add: two_entries_def)
  from RemoveNode_gap [OF this, of "Some 2"]
  have "RemoveNode (Some 2) two_entries =
     RemoveNode_relink (Some 2)
       (two_entries\<lparr>trace := [Lock, Rd ListSize, Rd ListSize, Unlock]\<rparr>)"
    by (simp add: two_entries_def)
  moreover have "outcome RemoveLast
      (two_entries\<lparr>trace := [Lock, Rd ListSize, Rd ListSize, Unlock]\<rparr>) =
     Some ((Some 2, None), 1, [3])"
    by (simp add: outcome_def RemoveLast_def prims two_entries_def elements_def)
  moreover have "outcome (call_after [OpRemoveLast] (RemoveNode_relink (Some 2)))
       (two_entries\<lparr>trace := [Lock, Rd ListSize, Rd ListSize, Unlock]\<rparr>) =
     Some ((Some 2, None), 0, [3])"
    by (simp add: outcome_def call_after_def RemoveLast_def RemoveNode_relink_def prims
        two_entries_def elements_def)
  ultimately show ?thesis by blast
qed

subsection \<open>C7: \<open>InitList\<close>\<close>

text \<open>
  C7. \<open>InitList\<close> always returns. The list it makes has two new nodes as sentinels, both
  with \<open>TTL = -1\<close>, the empty key and the empty string as value; the \<open>Next\<close> of the head
  sentinel is the tail sentinel, the \<open>Prev\<close> of the tail sentinel is the head sentinel, the
  outer links are \<open>nil\<close>, and \<open>Size\<close> is 0. The nodes that existed before are untouched, and
  the invariant holds with no real element.
\<close>

theorem InitList_sentinels:
  "\<exists>s'. InitList t1 t2 s = Inr ((), s') \<and>
     Head (ll s') = Some (length (heap s)) \<and> Tail (ll s') = Some (Suc (length (heap s))) \<and>
     Size (ll s') = 0 \<and>
     heap s' = heap s @
       [\<lparr>Key = '''', Value = StrVal '''', TTL = - 1, CreatedAt = t1,
          Prev = None, Next = Tail (ll s'), NMux = False\<rparr>,
        \<lparr>Key = '''', Value = StrVal '''', TTL = - 1, CreatedAt = t2,
          Prev = Head (ll s'), Next = None, NMux = False\<rparr>] \<and>
     sint (TTL (heap s' ! length (heap s))) = - 1 \<and>
     sint (TTL (heap s' ! Suc (length (heap s)))) = - 1 \<and>
     list_inv s' (length (heap s)) [] (Suc (length (heap s)))"
  using InitList_inv [of t1 t2 s] by (auto simp: InitList_effect nth_append)

text \<open>In the empty store, at times 5 and 6.\<close>

theorem InitList_sentinels_witness:
  "InitList 5 6 empty_store = Inr ((), fresh) \<and> Head (ll fresh) = Some 0 \<and>
   Tail (ll fresh) = Some 1 \<and> Size (ll fresh) = 0 \<and>
   Next (heap fresh ! 0) = Some 1 \<and> Prev (heap fresh ! 1) = Some 0 \<and>
   sint (TTL (heap fresh ! 0)) = - 1 \<and> sint (TTL (heap fresh ! 1)) = - 1 \<and>
   Key (heap fresh ! 0) = '''' \<and> Value (heap fresh ! 1) = StrVal ''''"
  using InitList_sentinels [of 5 6 empty_store]
  by (simp add: InitList_fresh fresh_def)

subsection \<open>C8: \<open>GetLastNode\<close>\<close>

text \<open>
  C8, with the bound that the \<open>int32\<close> size needs. Take a list that is linked, with a free
  lock and \<open>Size\<close> equal to the number of real elements modulo \<open>2^32\<close>, with at least one and
  fewer than \<open>2^32\<close> real elements. Then \<open>GetLastNode\<close> returns the element next to the tail
  sentinel, the last of the chain, with no error; the \<open>List\<close> object (so \<open>Size\<close>) and the
  whole heap (so every \<open>Prev\<close> and \<open>Next\<close>) are as before.
\<close>

theorem GetLastNode_peeks:
  assumes i: "list_ok s ha xs ta" and x: "xs \<noteq> []" and b: "length xs < 2 ^ 32"
  shows "\<exists>s'. GetLastNode s = Inr ((Some (last xs), None), s') \<and>
           Prev (heap s ! ta) = Some (last xs) \<and>
           ll s' = ll s \<and> heap s' = heap s \<and> list_ok s' ha xs ta \<and>
           (list_inv s ha xs ta \<longrightarrow> list_inv s' ha xs ta)"
proof -
  from i have l: "linked s ha xs ta" and m: "\<not> Mux (ll s)"
    and sz: "Size (ll s) = of_nat (length xs)"
    by (simp_all add: list_ok_def)
  have nz: "Size (ll s) \<noteq> 0" using Size_of_nat_zero [OF b] sz x by simp
  from l have "chain Prev (heap s) (Tail (ll s)) (ta # rev xs @ [ha]) None"
    by (simp add: linked_def)
  with x have "Prev (heap s ! ta) = Some (last xs)"
    by (cases xs rule: rev_cases) auto
  with GetLastNode_linked [OF l m nz] x i show ?thesis by simp
qed

text \<open>On the list with \<open>b\<close> (node 3) before \<open>a\<close> (node 2), the call returns node 2.\<close>

theorem GetLastNode_peeks_witness:
  "list_ok two_entries 0 [3, 2] 1 \<and> [3, 2] \<noteq> ([] :: nat list) \<and>
   length [3, 2 :: nat] < 2 ^ 32 \<and> list_inv two_entries 0 [3, 2] 1 \<and>
   (\<exists>s'. GetLastNode two_entries = Inr ((Some 2, None), s') \<and>
      ll s' = ll two_entries \<and> heap s' = heap two_entries \<and> list_inv s' 0 [3, 2] 1)"
proof -
  have a: "[3, 2] \<noteq> ([] :: nat list)" "length [3, 2 :: nat] < 2 ^ 32" by simp_all
  from GetLastNode_peeks [OF two_entries_ok a] a two_entries_ok two_entries_inv
  show ?thesis by auto
qed

text \<open>
  C8 as stated, for every list with a real element, fails: after the \<open>2^32\<close> calls of
  \<open>Insert\<close> with the keys \<open>k\<close>, \<open>kk\<close>, \<open>kkk\<close>, ... on the list that \<open>InitList\<close> returned, the
  nodes \<open>2, ..., 2^32 + 1\<close> are linked, \<open>Size\<close> has wrapped around to 0, and \<open>GetLastNode\<close>
  returns \<open>nil\<close> and \<open>"List is empty"\<close>.
\<close>

theorem GetLastNode_error_on_wrapped_list:
  "InitList 5 6 empty_store = Inr ((), fresh) \<and>
   outcome (call_after (insert_ops (numbered (2 ^ 32))) GetLastNode) fresh =
     Some ((None, Some (errors_New ''List is empty'')), 0, rev [2..<2 + 2 ^ 32]) \<and>
   length (rev [2..<2 + 2 ^ 32 :: nat]) = 2 ^ 32"
proof -
  have z: "of_nat (length (numbered (2 ^ 32))) = (0 :: 32 word)"
    unfolding length_numbered by simp
  have "outcome (call_after (insert_ops (numbered (2 ^ 32))) GetLastNode) fresh =
      Some ((None, Some (errors_New ''List is empty'')), 0, rev [2..<2 + 2 ^ 32])"
    using wrapped_to_zero(3) [OF z] unfolding length_numbered .
  with InitList_fresh length_rev_upt [of "2 ^ 32"] show ?thesis by blast
qed

subsection \<open>C9: \<open>Insert\<close>, then \<open>GetLastNode\<close>\<close>

text \<open>
  C9. On an empty list that satisfies the invariant, \<open>Insert\<close> returns a node and no error,
  and \<open>GetLastNode\<close> right after it returns that same node, which is the only element,
  next to the head and next to the tail. And \<open>Insert\<close> never fails: whenever it returns,
  in any state \<open>t\<close>, its error is \<open>nil\<close>; and on every linked list whose lock is free it
  does return, with the new node.
\<close>

theorem Insert_then_GetLastNode:
  assumes "list_inv s ha [] ta"
  shows "(\<exists>p s' s''. Insert k v ttl now s = Inr ((Some p, None), s') \<and>
            GetLastNode s' = Inr ((Some p, None), s'') \<and> elements s' = [p] \<and>
            Next (heap s' ! ha) = Some p \<and> Prev (heap s' ! ta) = Some p) \<and>
         (Insert k v ttl now t = Inr (r, t') \<longrightarrow> snd r = None) \<and>
         (linked u a ys b \<and> \<not> Mux (ll u) \<longrightarrow>
            (\<exists>u'. Insert k v ttl now u = Inr ((Some (length (heap u)), None), u')))"
proof -
  from assms have z: "Size (ll s) = 0"
    using Size_zero [of "Size (ll s)" 0] by (simp add: list_inv_def)
  then have "Size (ll s) \<noteq> 2147483647" by simp
  from Insert_inv [OF assms this, of k v ttl now] obtain s'
    where r: "Insert k v ttl now s = Inr ((Some (length (heap s)), None), s')"
      and i: "list_inv s' ha [length (heap s)] ta" by blast
  from GetLastNode_inv [OF i] obtain s''
    where g: "GetLastNode s' = Inr ((Some (length (heap s)), None), s'')" by auto
  from i have l: "linked s' ha [length (heap s)] ta" by (simp add: list_inv_def)
  then have "Next (heap s' ! ha) = Some (length (heap s))"
    "Prev (heap s' ! ta) = Some (length (heap s))"
    by (simp_all add: linked_def)
  with r g list_inv_elements [OF i]
  have "\<exists>p s' s''. Insert k v ttl now s = Inr ((Some p, None), s') \<and>
            GetLastNode s' = Inr ((Some p, None), s'') \<and> elements s' = [p] \<and>
            Next (heap s' ! ha) = Some p \<and> Prev (heap s' ! ta) = Some p"
    by blast
  moreover have "Insert k v ttl now t = Inr (r, t') \<longrightarrow> snd r = None"
    using Insert_returns [of k v ttl now t r t'] by blast
  moreover have "linked u a ys b \<and> \<not> Mux (ll u) \<longrightarrow>
            (\<exists>u'. Insert k v ttl now u = Inr ((Some (length (heap u)), None), u'))"
    using Insert_linked [of u a ys b k v ttl now] by blast
  ultimately show ?thesis by blast
qed

text \<open>On the list that \<open>InitList\<close> made, and \<open>Insert\<close> on the list with two entries.\<close>

theorem Insert_then_GetLastNode_witness:
  "list_inv fresh 0 [] 1 \<and>
   (\<exists>s' s''. Insert ''a'' (AnyVal 1) 60 7 fresh = Inr ((Some 2, None), s') \<and>
      GetLastNode s' = Inr ((Some 2, None), s'') \<and> elements s' = [2]) \<and>
   linked two_entries 0 [3, 2] 1 \<and> \<not> Mux (ll two_entries) \<and>
   (\<exists>u'. Insert ''a'' (AnyVal 1) 60 7 two_entries = Inr ((Some 4, None), u'))"
proof -
  have z: "Size (ll fresh) \<noteq> 2147483647" by (simp add: fresh_def)
  from Insert_inv [OF fresh_inv z, of "''a''" "AnyVal 1" 60 7] obtain s1
    where r1: "Insert ''a'' (AnyVal 1) 60 7 fresh = Inr ((Some (length (heap fresh)), None), s1)"
    by blast
  have l: "linked two_entries 0 [3, 2] 1 \<and> \<not> Mux (ll two_entries)"
    using two_entries_inv by (simp add: list_inv_def)
  note T = Insert_then_GetLastNode [OF fresh_inv, where k = "''a''" and v = "AnyVal 1"
      and ttl = 60 and now = 7 and t = fresh and r = "(Some (length (heap fresh)), None)"
      and t' = s1 and u = two_entries and a = 0 and ys = "[3, 2]" and b = 1]
  from T obtain p s' s''
    where r: "Insert ''a'' (AnyVal 1) 60 7 fresh = Inr ((Some p, None), s')"
      "GetLastNode s' = Inr ((Some p, None), s'')" "elements s' = [p]"
    by blast
  from r(1) r1 have "p = 2" by (simp add: fresh_def)
  moreover have len: "length (heap two_entries) = 4" by (simp add: two_entries_def)
  from T l
  have "\<exists>u'. Insert ''a'' (AnyVal 1) 60 7 two_entries =
      Inr ((Some (length (heap two_entries)), None), u')"
    by blast
  then have "\<exists>u'. Insert ''a'' (AnyVal 1) 60 7 two_entries = Inr ((Some 4, None), u')"
    unfolding len .
  ultimately show ?thesis using r fresh_inv l by blast
qed

subsection \<open>C10: the removed node keeps its links\<close>

text \<open>
  C10. On a list that satisfies the invariant, let \<open>e\<close> be a linked element, with \<open>y\<close> before
  it and \<open>z\<close> after it in the chain. After \<open>RemoveNode\<close> has returned \<open>e\<close>, the node \<open>e\<close> is
  what it was: its \<open>Prev\<close> is still \<open>y\<close> and its \<open>Next\<close> is still \<open>z\<close>, while \<open>y.Next\<close> is
  now \<open>z\<close> and \<open>z.Prev\<close> is now \<open>y\<close>. The same holds for the element that \<open>RemoveLast\<close>
  returns, whose \<open>Next\<close> is still the tail sentinel.
\<close>

theorem removed_node_keeps_links:
  assumes i: "list_inv s ha xs ta" and e: "e \<in> set xs"
  shows "(\<exists>pre y z post s'. ha # xs @ [ta] = pre @ [y, e, z] @ post \<and>
            RemoveNode (Some e) s = Inr ((Some e, None), s') \<and>
            Prev (heap s' ! e) = Some y \<and> Next (heap s' ! e) = Some z \<and>
            heap s' ! e = heap s ! e \<and>
            Next (heap s' ! y) = Some z \<and> Prev (heap s' ! z) = Some y) \<and>
         (\<exists>pre y s'. ha # xs @ [ta] = pre @ [y, last xs, ta] \<and>
            RemoveLast s = Inr ((Some (last xs), None), s') \<and>
            Prev (heap s' ! last xs) = Some y \<and> Next (heap s' ! last xs) = Some ta \<and>
            heap s' ! last xs = heap s ! last xs \<and>
            Next (heap s' ! y) = Some ta \<and> Prev (heap s' ! ta) = Some y)"
proof -
  from i have l: "linked s ha xs ta" by (simp add: list_inv_def)
  then have dx: "distinct xs" by (simp add: linked_def)
  from e have ne: "xs \<noteq> []" by auto
  have a: "\<exists>pre y z post s'. ha # xs @ [ta] = pre @ [y, e, z] @ post \<and>
            RemoveNode (Some e) s = Inr ((Some e, None), s') \<and>
            Prev (heap s' ! e) = Some y \<and> Next (heap s' ! e) = Some z \<and>
            heap s' ! e = heap s ! e \<and>
            Next (heap s' ! y) = Some z \<and> Prev (heap s' ! z) = Some y"
  proof -
    from split_at [OF e dx] obtain pre y z post
      where c: "ha # xs @ [ta] = pre @ [y, e, z] @ post" by blast
    from RemoveNode_state [OF i c] obtain t where
      r: "RemoveNode (Some e) s = Inr ((Some e, None),
           s\<lparr>heap := unlink (heap s) y z,
             ll := (ll s)\<lparr>Size := Size (ll s) - 1, Mux := False\<rparr>, trace := t\<rparr>)" by blast
    note n = linked_neighbours [OF l c]
    have "unlink (heap s) y z ! e = heap s ! e"
      using n by (simp add: nth_unlink_other)
    with c r n unlink_links [of y "heap s" z] show ?thesis
      by (intro exI [of _ pre] exI [of _ y] exI [of _ z] exI [of _ post]) auto
  qed
  have b: "\<exists>pre y s'. ha # xs @ [ta] = pre @ [y, last xs, ta] \<and>
            RemoveLast s = Inr ((Some (last xs), None), s') \<and>
            Prev (heap s' ! last xs) = Some y \<and> Next (heap s' ! last xs) = Some ta \<and>
            heap s' ! last xs = heap s ! last xs \<and>
            Next (heap s' ! y) = Some ta \<and> Prev (heap s' ! ta) = Some y"
  proof -
    from split_at_last [OF ne] obtain pre y
      where c: "ha # xs @ [ta] = pre @ [y, last xs, ta]" by blast
    then have c': "ha # xs @ [ta] = pre @ [y, last xs, ta] @ []" by simp
    from RemoveLast_state [OF i c] obtain t where
      r: "RemoveLast s = Inr ((Some (last xs), None),
           s\<lparr>heap := unlink (heap s) y ta,
             ll := (ll s)\<lparr>Size := Size (ll s) - 1, Mux := False\<rparr>, trace := t\<rparr>)" by blast
    note n = linked_neighbours [OF l c']
    have "unlink (heap s) y ta ! last xs = heap s ! last xs"
      using n by (simp add: nth_unlink_other)
    with c r n unlink_links [of y "heap s" ta] show ?thesis
      by (intro exI [of _ pre] exI [of _ y]) auto
  qed
  from a b show ?thesis by blast
qed

text \<open>Removing \<open>a\<close> (node 2), which lies between \<open>b\<close> (node 3) and the tail sentinel 1.\<close>

theorem removed_node_keeps_links_witness:
  "list_inv two_entries 0 [3, 2] 1 \<and> 2 \<in> set [3, 2 :: nat] \<and>
   (\<exists>s'. RemoveNode (Some 2) two_entries = Inr ((Some 2, None), s') \<and>
      Prev (heap s' ! 2) = Some 3 \<and> Next (heap s' ! 2) = Some 1 \<and>
      Next (heap s' ! 3) = Some 1 \<and> Prev (heap s' ! 1) = Some 3) \<and>
   (\<exists>s'. RemoveLast two_entries = Inr ((Some 2, None), s') \<and>
      Prev (heap s' ! 2) = Some 3 \<and> Next (heap s' ! 2) = Some 1 \<and>
      Next (heap s' ! 3) = Some 1 \<and> Prev (heap s' ! 1) = Some 3)"
proof -
  have e: "2 \<in> set [3, 2 :: nat]" by simp
  note T = removed_node_keeps_links [OF two_entries_inv e]
  from T obtain pre y z post s'
    where c: "0 # [3, 2] @ [1] = pre @ [y, 2, z] @ post"
      and r: "RemoveNode (Some 2) two_entries = Inr ((Some 2, None), s')"
      "Prev (heap s' ! 2) = Some y" "Next (heap s' ! 2) = Some z"
      "Next (heap s' ! y) = Some z" "Prev (heap s' ! z) = Some y"
    by blast
  from c have "pre = [0] \<and> y = 3 \<and> z = 1 \<and> post = []"
    by (auto simp: Cons_eq_append_conv)
  with r have a: "\<exists>s'. RemoveNode (Some 2) two_entries = Inr ((Some 2, None), s') \<and>
      Prev (heap s' ! 2) = Some 3 \<and> Next (heap s' ! 2) = Some 1 \<and>
      Next (heap s' ! 3) = Some 1 \<and> Prev (heap s' ! 1) = Some 3" by blast
  from T obtain pre y s'
    where c: "0 # [3, 2] @ [1] = pre @ [y, last [3, 2], 1]"
      and r: "RemoveLast two_entries = Inr ((Some (last [3, 2]), None), s')"
      "Prev (heap s' ! last [3, 2]) = Some y" "Next (heap s' ! last [3, 2]) = Some 1"
      "Next (heap s' ! y) = Some 1" "Prev (heap s' ! 1) = Some y"
    by blast
  from c have "pre = [0] \<and> y = 3"
    by (auto simp: Cons_eq_append_conv)
  with r have b: "\<exists>s'. RemoveLast two_entries = Inr ((Some 2, None), s') \<and>
      Prev (heap s' ! 2) = Some 3 \<and> Next (heap s' ! 2) = Some 1 \<and>
      Next (heap s' ! 3) = Some 1 \<and> Prev (heap s' ! 1) = Some 3" by auto
  from a b two_entries_inv e show ?thesis by blast
qed

end
